theory Spec2Isabelle
  imports Complex_Main "HOL-Library.Word" "HOL-Library.Char_ord" "HOL-Library.List_Lexorder"
begin

section \<open>The JSON library of the transport catalogue\<close>

text \<open>
  A shallow embedding of \<^verbatim>\<open>json.h\<close>, \<^verbatim>\<open>json.cpp\<close> and \<^verbatim>\<open>json_builder.cpp\<close>.
  An input stream is the list of characters not yet consumed. Every \<^verbatim>\<open>throw\<close> of the
  source is an \<open>Inl\<close> result carrying the exception with its message.
\<close>

subsection \<open>Characters\<close>

abbreviation dquote :: char where "dquote \<equiv> CHR 0x22"
abbreviation bslash :: char where "bslash \<equiv> CHR 0x5C"
abbreviation newline :: char where "newline \<equiv> CHR 0x0A"
abbreviation cret :: char where "cret \<equiv> CHR 0x0D"
abbreviation htab :: char where "htab \<equiv> CHR 0x09"

text \<open>\<^verbatim>\<open>std::isspace\<close>, \<^verbatim>\<open>std::isalpha\<close> and \<^verbatim>\<open>std::isdigit\<close> in the classic locale.\<close>

definition isspace :: "char \<Rightarrow> bool" where
  "isspace c \<longleftrightarrow> c = CHR '' '' \<or> (9 \<le> (of_char c :: nat) \<and> (of_char c :: nat) \<le> 13)"

definition isalpha :: "char \<Rightarrow> bool" where
  "isalpha c \<longleftrightarrow> (65 \<le> (of_char c :: nat) \<and> (of_char c :: nat) \<le> 90)
     \<or> (97 \<le> (of_char c :: nat) \<and> (of_char c :: nat) \<le> 122)"

definition isdigit :: "char \<Rightarrow> bool" where
  "isdigit c \<longleftrightarrow> 48 \<le> (of_char c :: nat) \<and> (of_char c :: nat) \<le> 57"

subsection \<open>Values\<close>

text \<open>
  \<^verbatim>\<open>double\<close>: a finite binary64 number \<open>(-1)^s * m * 2^e\<close> in the canonical form of the
  format (\<open>m < 2^53\<close>; \<open>2^52 \<le> m\<close> unless \<open>e = -1074\<close>; \<open>-1074 \<le> e \<le> 971\<close>).
  The parser produces no infinity and no NaN.
\<close>

datatype double = Dbl (dsign: bool) (dmant: nat) (dexp: int)

text \<open>
  \<^verbatim>\<open>Node\<close>: the variant \<^verbatim>\<open>std::variant<nullptr_t, Array, Dict, bool, int, double, string>\<close>.
  \<^verbatim>\<open>int\<close> is the 32-bit two's complement integer of the platforms the program builds on.
  \<^verbatim>\<open>Dict\<close> is \<^verbatim>\<open>std::map<std::string, Node>\<close>: the entries in increasing key order,
  every key once.
\<close>

datatype node =
    Null
  | Array "node list"
  | Dict "(string \<times> node) list"
  | Bool bool
  | Int32 "32 word"
  | Double double
  | String string

datatype error = ParsingError string | LogicError string

type_synonym istream = string
type_synonym 'a parse = "error + 'a \<times> istream"

subsection \<open>Stream primitives\<close>

text \<open>\<^verbatim>\<open>input >> c\<close> with \<^verbatim>\<open>skipws\<close>: skip white space, then extract one character;
  \<open>None\<close> is the failed stream.\<close>

fun read_char_ws :: "istream \<Rightarrow> (char \<times> istream) option" where
  "read_char_ws [] = None"
| "read_char_ws (c # s) = (if isspace c then read_char_ws s else Some (c, s))"

subsection \<open>LoadLiteral\<close>

fun LoadLiteral_loop :: "string \<Rightarrow> istream \<Rightarrow> string \<times> istream" where
  "LoadLiteral_loop s [] = (s, [])"
| "LoadLiteral_loop s (c # input) =
     (if isalpha c then LoadLiteral_loop (s @ [c]) input else (s, c # input))"

definition LoadLiteral :: "istream \<Rightarrow> string \<times> istream" where
  "LoadLiteral input = LoadLiteral_loop [] input"

subsection \<open>LoadString\<close>

text \<open>The loop of \<^verbatim>\<open>LoadString\<close>; \<open>s\<close> is the string built so far, the second argument
  the characters from the iterator \<^verbatim>\<open>it\<close> on.\<close>

fun LoadString_loop :: "string \<Rightarrow> istream \<Rightarrow> node parse" where
  "LoadString_loop s [] = Inl (ParsingError ''String parsing error'')"
| "LoadString_loop s (ch # it) =
     (if ch = dquote then Inr (String s, it)
      else if ch = bslash then
        (case it of
           [] \<Rightarrow> Inl (ParsingError ''String parsing error'')
         | escaped_char # it' \<Rightarrow>
             if escaped_char = CHR ''n'' then LoadString_loop (s @ [newline]) it'
             else if escaped_char = CHR ''t'' then LoadString_loop (s @ [htab]) it'
             else if escaped_char = CHR ''r'' then LoadString_loop (s @ [cret]) it'
             else if escaped_char = dquote then LoadString_loop (s @ [dquote]) it'
             else if escaped_char = bslash then LoadString_loop (s @ [bslash]) it'
             else Inl (ParsingError (''Unrecognized escape sequence '' @ [bslash, escaped_char])))
      else if ch = newline \<or> ch = cret then Inl (ParsingError ''Unexpected end of line'')
      else LoadString_loop (s @ [ch]) it)"

definition LoadString :: "istream \<Rightarrow> node parse" where
  "LoadString input = LoadString_loop [] input"

subsection \<open>Library conversions: \<^verbatim>\<open>std::stoi\<close> and \<^verbatim>\<open>std::stod\<close>\<close>

fun digits_value :: "nat \<Rightarrow> string \<Rightarrow> nat" where
  "digits_value acc [] = acc"
| "digits_value acc (c # cs) = digits_value (10 * acc + (of_char c - 48)) cs"

text \<open>\<^verbatim>\<open>strtol\<close>/\<^verbatim>\<open>strtod\<close> skip leading white space and take an optional sign.\<close>

definition take_sign :: "string \<Rightarrow> bool \<times> string" where
  "take_sign s = (case s of
       [] \<Rightarrow> (False, [])
     | c # r \<Rightarrow> if c = CHR ''-'' then (True, r) else if c = CHR ''+'' then (False, r) else (False, s))"

text \<open>
  \<^verbatim>\<open>std::stoi(str)\<close>: \<^verbatim>\<open>strtol\<close> in base 10 on the longest prefix that is a number;
  \<^verbatim>\<open>std::invalid_argument\<close> when there is no digit, \<^verbatim>\<open>std::out_of_range\<close> when the value
  is not an \<^verbatim>\<open>int\<close>. Both are \<open>None\<close>: the caller catches everything.
\<close>

definition stoi :: "string \<Rightarrow> 32 word option" where
  "stoi str =
     (let (neg, s) = take_sign (dropWhile isspace str);
          ds = takeWhile isdigit s;
          v = (if neg then - int (digits_value 0 ds) else int (digits_value 0 ds))
      in if ds = [] then None
         else if v < - (2 ^ 31) \<or> 2 ^ 31 - 1 < v then None
         else Some (word_of_int v))"

text \<open>Division rounded to the nearest integer, ties to even.\<close>

definition round_div_even :: "nat \<Rightarrow> nat \<Rightarrow> nat" where
  "round_div_even n d =
     (let q = n div d; r = n mod d
      in if d < 2 * r \<or> (2 * r = d \<and> odd q) then q + 1 else q)"

fun bitlen :: "nat \<Rightarrow> nat" where
  "bitlen n = (if n = 0 then 0 else Suc (bitlen (n div 2)))"

declare bitlen.simps [simp del]

text \<open>The positive rational \<open>n / d\<close> scaled by \<open>2 ^ (- e)\<close>, as a fraction.\<close>

definition scale2 :: "nat \<Rightarrow> nat \<Rightarrow> int \<Rightarrow> nat \<times> nat" where
  "scale2 n d e = (if e < 0 then (n * 2 ^ nat (- e), d) else (n, d * 2 ^ nat e))"

text \<open>
  The binary64 number nearest to \<open>n / d > 0\<close> (round to nearest, ties to even), as
  significand and exponent; \<open>fl\<close> is the binary exponent of \<open>n / d\<close>, that is
  \<open>2^fl \<le> n / d < 2^(fl + 1)\<close>. \<open>None\<close> is \<^verbatim>\<open>ERANGE\<close>: the value overflows, or it is
  tiny and the result is not exact. As in \<^verbatim>\<open>strtod\<close> of glibc on x86-64, a value is tiny
  when, rounded to 53 significant bits, it is still below the smallest normal number
  \<open>2^(-1022)\<close>; the result of a tiny value may be \<open>2^(-1022)\<close> itself.
\<close>

definition to_binary64 :: "nat \<Rightarrow> nat \<Rightarrow> (nat \<times> int) option" where
  "to_binary64 n d =
     (let k = int (bitlen n) - int (bitlen d);
          fl = (if fst (scale2 n d k) \<ge> snd (scale2 n d k) then k else k - 1);
          (sn0, sd0) = scale2 n d (fl - 52);
          tiny = (fl < - 1022 \<and> \<not> (fl = - 1023 \<and> round_div_even sn0 sd0 = 2 ^ 53));
          e = max (fl - 52) (- 1074);
          (sn, sd) = scale2 n d e;
          q = round_div_even sn sd;
          (m, e') = (if q = 2 ^ 53 then (2 ^ 52, e + 1) else (q, e))
      in if 971 < e' then None
         else if tiny \<and> sn mod sd \<noteq> 0 then None
         else Some (m, e'))"

text \<open>
  \<^verbatim>\<open>std::stod(str)\<close> on decimal text: optional sign, digits with an optional point, an
  optional exponent. (\<^verbatim>\<open>parsed_num\<close> holds only signs, digits, \<^verbatim>\<open>.\<close>, \<^verbatim>\<open>e\<close> and \<^verbatim>\<open>E\<close>, so the
  hexadecimal, \<^verbatim>\<open>inf\<close> and \<^verbatim>\<open>nan\<close> forms of \<^verbatim>\<open>strtod\<close> cannot occur.)
  \<open>None\<close> is \<^verbatim>\<open>std::invalid_argument\<close> or \<^verbatim>\<open>std::out_of_range\<close>.
\<close>

definition take_exponent :: "string \<Rightarrow> int" where
  "take_exponent s = (case s of
       [] \<Rightarrow> 0
     | c # r \<Rightarrow>
         if c = CHR ''e'' \<or> c = CHR ''E'' then
           (let (neg, r') = take_sign r; ds = takeWhile isdigit r'
            in if ds = [] then 0
               else if neg then - int (digits_value 0 ds) else int (digits_value 0 ds))
         else 0)"

definition stod :: "string \<Rightarrow> double option" where
  "stod str =
     (let (neg, s) = take_sign (dropWhile isspace str);
          ip = takeWhile isdigit s;
          s1 = dropWhile isdigit s;
          fp = (case s1 of [] \<Rightarrow> [] | c # r \<Rightarrow> if c = CHR ''.'' then takeWhile isdigit r else []);
          s2 = (case s1 of [] \<Rightarrow> [] | c # r \<Rightarrow> if c = CHR ''.'' then dropWhile isdigit r else s1);
          m10 = digits_value 0 (ip @ fp);
          e10 = take_exponent s2 - int (length fp)
      in if ip @ fp = [] then None
         else if m10 = 0 then Some (Dbl neg 0 (- 1074))
         else (case (if e10 < 0 then to_binary64 m10 (10 ^ nat (- e10))
                     else to_binary64 (m10 * 10 ^ nat e10) 1) of
                 None \<Rightarrow> None
               | Some (m, e) \<Rightarrow> Some (Dbl neg m e)))"

subsection \<open>LoadNumber\<close>

text \<open>The lambda \<^verbatim>\<open>read_digits\<close>: one or more digits from \<^verbatim>\<open>input\<close> onto \<^verbatim>\<open>parsed_num\<close>.\<close>

fun read_digits_loop :: "string \<Rightarrow> istream \<Rightarrow> string \<times> istream" where
  "read_digits_loop parsed_num [] = (parsed_num, [])"
| "read_digits_loop parsed_num (c # input) =
     (if isdigit c then read_digits_loop (parsed_num @ [c]) input else (parsed_num, c # input))"

definition read_digits :: "string \<Rightarrow> istream \<Rightarrow> error + string \<times> istream" where
  "read_digits parsed_num input =
     (case input of
        [] \<Rightarrow> Inl (ParsingError ''A digit is expected'')
      | c # _ \<Rightarrow> if \<not> isdigit c then Inl (ParsingError ''A digit is expected'')
                 else Inr (read_digits_loop parsed_num input))"

text \<open>\<^verbatim>\<open>if (input.peek() == '-') read_char();\<close>\<close>

definition scan_minus :: "istream \<Rightarrow> string \<times> istream" where
  "scan_minus input = (case input of
       [] \<Rightarrow> ([], [])
     | c # r \<Rightarrow> if c = CHR ''-'' then ([c], r) else ([], input))"

text \<open>The integer part: a single \<^verbatim>\<open>0\<close>, or \<^verbatim>\<open>read_digits\<close>.\<close>

definition scan_int_part :: "string \<Rightarrow> istream \<Rightarrow> error + string \<times> istream" where
  "scan_int_part parsed_num input = (case input of
       [] \<Rightarrow> read_digits parsed_num input
     | c # r \<Rightarrow> if c = CHR ''0'' then Inr (parsed_num @ [c], r) else read_digits parsed_num input)"

text \<open>The fraction; the flag is \<^verbatim>\<open>is_int\<close>.\<close>

definition scan_fraction :: "string \<Rightarrow> istream \<Rightarrow> error + string \<times> bool \<times> istream" where
  "scan_fraction parsed_num input = (case input of
       [] \<Rightarrow> Inr (parsed_num, True, input)
     | c # r \<Rightarrow>
         if c = CHR ''.'' then
           (case read_digits (parsed_num @ [c]) r of
              Inl e \<Rightarrow> Inl e
            | Inr (p, r') \<Rightarrow> Inr (p, False, r'))
         else Inr (parsed_num, True, input))"

definition scan_exponent :: "string \<Rightarrow> bool \<Rightarrow> istream \<Rightarrow> error + string \<times> bool \<times> istream" where
  "scan_exponent parsed_num is_int input = (case input of
       [] \<Rightarrow> Inr (parsed_num, is_int, input)
     | ch # r \<Rightarrow>
         if ch = CHR ''e'' \<or> ch = CHR ''E'' then
           (let (p, r1) = (case r of
                    [] \<Rightarrow> (parsed_num @ [ch], r)
                  | ch' # r' \<Rightarrow> if ch' = CHR ''+'' \<or> ch' = CHR ''-''
                               then (parsed_num @ [ch, ch'], r') else (parsed_num @ [ch], r))
            in case read_digits p r1 of
                 Inl e \<Rightarrow> Inl e
               | Inr (p', r2) \<Rightarrow> Inr (p', False, r2))
         else Inr (parsed_num, is_int, input))"

text \<open>Everything of \<^verbatim>\<open>LoadNumber\<close> before the conversion: the literal read, \<^verbatim>\<open>is_int\<close>,
  and the rest of the stream.\<close>

definition scan_number :: "istream \<Rightarrow> error + string \<times> bool \<times> istream" where
  "scan_number input =
     (let (p0, r0) = scan_minus input
      in case scan_int_part p0 r0 of
           Inl e \<Rightarrow> Inl e
         | Inr (p1, r1) \<Rightarrow>
             (case scan_fraction p1 r1 of
                Inl e \<Rightarrow> Inl e
              | Inr (p2, is_int, r2) \<Rightarrow> scan_exponent p2 is_int r2))"

text \<open>The conversion: \<^verbatim>\<open>stoi\<close> first when \<^verbatim>\<open>is_int\<close>, \<^verbatim>\<open>stod\<close> when that throws or otherwise.\<close>

definition convert_number :: "string \<Rightarrow> bool \<Rightarrow> error + node" where
  "convert_number parsed_num is_int =
     (case (if is_int then stoi parsed_num else None) of
        Some i \<Rightarrow> Inr (Int32 i)
      | None \<Rightarrow>
          (case stod parsed_num of
             Some d \<Rightarrow> Inr (Double d)
           | None \<Rightarrow> Inl (ParsingError (''Failed to convert '' @ parsed_num @ '' to number''))))"

definition LoadNumber :: "istream \<Rightarrow> node parse" where
  "LoadNumber input =
     (case scan_number input of
        Inl e \<Rightarrow> Inl e
      | Inr (parsed_num, is_int, rest) \<Rightarrow>
          (case convert_number parsed_num is_int of
             Inl e \<Rightarrow> Inl e
           | Inr v \<Rightarrow> Inr (v, rest)))"

subsection \<open>LoadBool, LoadNull\<close>

definition LoadBool :: "istream \<Rightarrow> node parse" where
  "LoadBool input =
     (let (s, rest) = LoadLiteral input
      in if s = ''true'' then Inr (Bool True, rest)
         else if s = ''false'' then Inr (Bool False, rest)
         else Inl (ParsingError (''Failed to parse '' @ [CHR 0x27] @ s @ [CHR 0x27] @ '' as bool'')))"

definition LoadNull :: "istream \<Rightarrow> node parse" where
  "LoadNull input =
     (let (literal, rest) = LoadLiteral input
      in if literal = ''null'' then Inr (Null, rest)
         else Inl (ParsingError (''Failed to parse '' @ [CHR 0x27] @ literal @ [CHR 0x27] @ '' as null'')))"

subsection \<open>Dict: \<^verbatim>\<open>std::map<std::string, Node>\<close>\<close>

type_synonym dict = "(string \<times> node) list"

definition dict_find :: "string \<Rightarrow> dict \<Rightarrow> node option" where
  "dict_find key d = map_of d key"

text \<open>\<^verbatim>\<open>emplace\<close> inserts in key order and leaves the map alone when the key is there.\<close>

definition dict_emplace :: "string \<Rightarrow> node \<Rightarrow> dict \<Rightarrow> dict" where
  "dict_emplace key v d =
     (if dict_find key d \<noteq> None then d else insort_key fst (key, v) d)"

subsection \<open>LoadNode, LoadArray, LoadDict\<close>

text \<open>
  The three functions call each other on the rest of the stream, which the source does
  not bound; the first argument is fuel, one unit for every call and every loop iteration,
  and \<open>None\<close> is fuel exhausted. \<^verbatim>\<open>input.putback(c)\<close> puts \<open>c\<close> back in front of the rest.
\<close>

fun LoadNode :: "nat \<Rightarrow> istream \<Rightarrow> node parse option"
  and LoadArray_loop :: "nat \<Rightarrow> node list \<Rightarrow> istream \<Rightarrow> node parse option"
  and LoadDict_loop :: "nat \<Rightarrow> dict \<Rightarrow> istream \<Rightarrow> node parse option"
where
  "LoadNode 0 input = None"
| "LoadNode (Suc n) input =
     (case read_char_ws input of
        None \<Rightarrow> Some (Inl (ParsingError ''Unexpected EOF''))
      | Some (c, r) \<Rightarrow>
          if c = CHR ''['' then LoadArray_loop n [] r
          else if c = CHR ''{'' then LoadDict_loop n [] r
          else if c = dquote then Some (LoadString r)
          else if c = CHR ''t'' \<or> c = CHR ''f'' then Some (LoadBool (c # r))
          else if c = CHR ''n'' then Some (LoadNull (c # r))
          else Some (LoadNumber (c # r)))"
| "LoadArray_loop 0 result input = None"
| "LoadArray_loop (Suc n) result input =
     (case read_char_ws input of
        None \<Rightarrow> Some (Inl (ParsingError ''Array parsing error''))
      | Some (c, r) \<Rightarrow>
          if c = CHR '']'' then Some (Inr (Array result, r))
          else (case LoadNode n (if c \<noteq> CHR '','' then c # r else r) of
                  None \<Rightarrow> None
                | Some (Inl e) \<Rightarrow> Some (Inl e)
                | Some (Inr (v, r')) \<Rightarrow> LoadArray_loop n (result @ [v]) r'))"
| "LoadDict_loop 0 d input = None"
| "LoadDict_loop (Suc n) d input =
     (case read_char_ws input of
        None \<Rightarrow> Some (Inl (ParsingError ''Dictionary parsing error''))
      | Some (c, r) \<Rightarrow>
          if c = CHR ''}'' then Some (Inr (Dict d, r))
          else if c = dquote then
            (case LoadString r of
               Inl e \<Rightarrow> Some (Inl e)
             | Inr (k, r1) \<Rightarrow>
                 (case k of
                    String key \<Rightarrow>
                      (case read_char_ws r1 of
                         None \<Rightarrow> Some (Inl (ParsingError
                            ('': is expected but '' @ [CHR 0x27, c, CHR 0x27] @ '' has been found'')))
                       | Some (c', r2) \<Rightarrow>
                           if c' = CHR '':'' then
                             (if dict_find key d \<noteq> None then
                                Some (Inl (ParsingError (''Duplicate key '' @ [CHR 0x27] @ key
                                   @ [CHR 0x27] @ '' have been found'')))
                              else (case LoadNode n r2 of
                                      None \<Rightarrow> None
                                    | Some (Inl e) \<Rightarrow> Some (Inl e)
                                    | Some (Inr (v, r3)) \<Rightarrow> LoadDict_loop n (dict_emplace key v d) r3))
                           else Some (Inl (ParsingError
                              ('': is expected but '' @ [CHR 0x27, c', CHR 0x27] @ '' has been found''))))
                  | _ \<Rightarrow> Some (Inl (LogicError ''Not a string''))))
          else if c \<noteq> CHR '','' then
            Some (Inl (ParsingError
               ([CHR 0x27] @ '','' @ [CHR 0x27] @ '' is expected but '' @ [CHR 0x27, c, CHR 0x27]
                  @ '' has been found'')))
          else LoadDict_loop n d r)"

declare LoadNode.simps [simp del] LoadArray_loop.simps [simp del] LoadDict_loop.simps [simp del]

definition LoadArray :: "nat \<Rightarrow> istream \<Rightarrow> node parse option" where
  "LoadArray n input = LoadArray_loop n [] input"

definition LoadDict :: "nat \<Rightarrow> istream \<Rightarrow> node parse option" where
  "LoadDict n input = LoadDict_loop n [] input"

text \<open>\<^verbatim>\<open>Load\<close>: the document is its root node. Two units of fuel for every character and
  one more are enough (\<open>Load_total\<close> below).\<close>

definition Load :: "istream \<Rightarrow> node parse option" where
  "Load input = LoadNode (2 * length input + 1) input"

subsection \<open>Library output: \<^verbatim>\<open>operator<<\<close> for \<^verbatim>\<open>int\<close> and \<^verbatim>\<open>double\<close>\<close>

definition digit_char :: "nat \<Rightarrow> char" where
  "digit_char n = ''0123456789'' ! n"

fun show_nat :: "nat \<Rightarrow> string" where
  "show_nat n =
     (if n < 10 then [digit_char n] else show_nat (n div 10) @ [digit_char (n mod 10)])"

declare show_nat.simps [simp del]

text \<open>\<^verbatim>\<open>out << value\<close> for an \<^verbatim>\<open>int\<close>: the decimal digits, after a minus sign when negative.\<close>

definition show_int :: "32 word \<Rightarrow> string" where
  "show_int w = (if sint w < 0 then CHR ''-'' # show_nat (nat (- sint w)) else show_nat (nat (sint w)))"

text \<open>The positive rational \<open>n / d\<close> scaled by \<open>10 ^ (- k)\<close>, as a fraction.\<close>

definition scale10 :: "nat \<Rightarrow> nat \<Rightarrow> int \<Rightarrow> nat \<times> nat" where
  "scale10 n d k = (if k < 0 then (n * 10 ^ nat (- k), d) else (n, d * 10 ^ nat k))"

text \<open>The decimal exponent of \<open>n / d > 0\<close>: the \<open>X\<close> with \<open>10^X \<le> n / d < 10^(X + 1)\<close>.\<close>

definition decimal_exponent :: "nat \<Rightarrow> nat \<Rightarrow> int" where
  "decimal_exponent n d =
     (let k = int (length (show_nat n)) - int (length (show_nat d))
      in if snd (scale10 n d k) \<le> fst (scale10 n d k) then k else k - 1)"

definition strip_zeros :: "string \<Rightarrow> string" where
  "strip_zeros ds = rev (dropWhile (\<lambda>c. c = CHR ''0'') (rev ds))"

text \<open>
  \<^verbatim>\<open>out << value\<close> for a \<^verbatim>\<open>double\<close> on a stream in its default state: the conversion
  \<^verbatim>\<open>%g\<close> with precision 6. The value is rounded to six significant digits (to nearest,
  ties to even), \<open>X\<close> is the decimal exponent of the rounded value; for \<open>-4 \<le> X < 6\<close> the
  digits are written in fixed notation, otherwise in scientific notation with an exponent
  of at least two digits; trailing zeros of the fraction are dropped, and the point with
  them when no fraction is left.
\<close>

definition show_double :: "double \<Rightarrow> string" where
  "show_double x =
     (if dsign x then ''-'' else []) @
     (if dmant x = 0 then ''0''
      else
        (let (n, d) = (if 0 \<le> dexp x then (dmant x * 2 ^ nat (dexp x), 1)
                       else (dmant x, 2 ^ nat (- dexp x)));
             X0 = decimal_exponent n d;
             (sn, sd) = scale10 n d (X0 - 5);
             D0 = round_div_even sn sd;
             (D, X) = (if D0 = 10 ^ 6 then (10 ^ 5, X0 + 1) else (D0, X0));
             ds = show_nat D
         in if X < - 4 \<or> 6 \<le> X then
              [hd ds] @ (if strip_zeros (tl ds) = [] then [] else CHR ''.'' # strip_zeros (tl ds))
                @ ''e'' @ (if X < 0 then ''-'' else ''+'')
                @ (if nat \<bar>X\<bar> < 10 then CHR ''0'' # show_nat (nat \<bar>X\<bar>) else show_nat (nat \<bar>X\<bar>))
            else if 0 \<le> X then
              take (nat X + 1) ds
                @ (if strip_zeros (drop (nat X + 1) ds) = [] then []
                   else CHR ''.'' # strip_zeros (drop (nat X + 1) ds))
            else ''0.'' @ replicate (nat (- X - 1)) CHR ''0'' @ strip_zeros ds))"

subsection \<open>Printing\<close>

record PrintContext =
  indent_step :: int
  indent :: int

definition PrintIndent :: "PrintContext \<Rightarrow> string" where
  "PrintIndent ctx = replicate (nat (indent ctx)) CHR '' ''"

definition Indented :: "PrintContext \<Rightarrow> PrintContext" where
  "Indented ctx = \<lparr>indent_step = indent_step ctx, indent = indent_step ctx + indent ctx\<rparr>"

fun PrintString_loop :: "string \<Rightarrow> string" where
  "PrintString_loop [] = []"
| "PrintString_loop (c # cs) =
     (if c = cret then [bslash, CHR ''r'']
      else if c = newline then [bslash, CHR ''n'']
      else if c = htab then [bslash, CHR ''t'']
      else if c = dquote \<or> c = bslash then [bslash, c]
      else [c]) @ PrintString_loop cs"

definition PrintString :: "string \<Rightarrow> string" where
  "PrintString val = [dquote] @ PrintString_loop val @ [dquote]"

text \<open>
  \<^verbatim>\<open>PrintNode\<close> visits the variant; the result is the text written to the stream. The two
  loops carry the flag \<^verbatim>\<open>first\<close> and the inner context.
\<close>

fun PrintNode :: "node \<Rightarrow> PrintContext \<Rightarrow> string"
  and PrintArray_loop :: "bool \<Rightarrow> node list \<Rightarrow> PrintContext \<Rightarrow> string"
  and PrintDict_loop :: "bool \<Rightarrow> dict \<Rightarrow> PrintContext \<Rightarrow> string"
where
  "PrintNode Null ctx = ''null''"
| "PrintNode (Bool b) ctx = (if b then ''true'' else ''false'')"
| "PrintNode (Int32 i) ctx = show_int i"
| "PrintNode (Double x) ctx = show_double x"
| "PrintNode (String s) ctx = PrintString s"
| "PrintNode (Array nodes) ctx =
     [CHR ''['', newline] @ PrintArray_loop True nodes (Indented ctx)
       @ [newline] @ PrintIndent ctx @ '']''"
| "PrintNode (Dict nodes) ctx =
     [CHR ''{'', newline] @ PrintDict_loop True nodes (Indented ctx)
       @ [newline] @ PrintIndent ctx @ ''}''"
| "PrintArray_loop first [] inner_ctx = []"
| "PrintArray_loop first (node # nodes) inner_ctx =
     (if first then [] else [CHR '','', newline]) @ PrintIndent inner_ctx
       @ PrintNode node inner_ctx @ PrintArray_loop False nodes inner_ctx"
| "PrintDict_loop first [] inner_ctx = []"
| "PrintDict_loop first ((key, node) # nodes) inner_ctx =
     (if first then [] else [CHR '','', newline]) @ PrintIndent inner_ctx
       @ PrintString key @ '': '' @ PrintNode node inner_ctx @ PrintDict_loop False nodes inner_ctx"

text \<open>\<^verbatim>\<open>Print\<close>: the root in the default context, four spaces a level.\<close>

definition Print :: "node \<Rightarrow> string" where
  "Print doc = PrintNode doc \<lparr>indent_step = 4, indent = 0\<rparr>"

subsection \<open>Builder\<close>

text \<open>
  \<^verbatim>\<open>nodes_stack_\<close> holds pointers to nodes inside \<^verbatim>\<open>root_\<close>. A pointer is the path from the
  root to the node: the index of an array element, the key of a dictionary entry.
  \<^verbatim>\<open>back()\<close> is the last element of the list.
\<close>

datatype step = Elem nat | Field string

type_synonym ptr = "step list"

fun deref :: "node \<Rightarrow> ptr \<Rightarrow> node option" where
  "deref v [] = Some v"
| "deref (Array xs) (Elem i # p) = (if i < length xs then deref (xs ! i) p else None)"
| "deref (Dict d) (Field k # p) = (case map_of d k of None \<Rightarrow> None | Some v \<Rightarrow> deref v p)"
| "deref _ _ = None"

text \<open>Assignment through a pointer: the tree with the node at the path replaced.\<close>

fun assign :: "ptr \<Rightarrow> node \<Rightarrow> node \<Rightarrow> node" where
  "assign [] w v = w"
| "assign (Elem i # p) w (Array xs) =
     (if i < length xs then Array (xs[i := assign p w (xs ! i)]) else Array xs)"
| "assign (Field k # p) w (Dict d) =
     Dict (map (\<lambda>(k', v). if k' = k then (k', assign p w v) else (k', v)) d)"
| "assign _ w v = v"

record builder =
  root :: node
  nodes_stack :: "ptr list"

text \<open>The constructor: \<^verbatim>\<open>root_()\<close> is null, the stack holds \<^verbatim>\<open>&root_\<close>.\<close>

definition Builder :: builder where
  "Builder = \<lparr>root = Null, nodes_stack = [[]]\<rparr>"

text \<open>
  \<^verbatim>\<open>GetCurValue\<close>. Dereferencing a pointer that names no node is undefined in the source;
  here it is the error \<open>Dangling\<close>.
\<close>

datatype builder_error = Logic string | Dangling

definition GetCurValue :: "builder \<Rightarrow> builder_error + node" where
  "GetCurValue b =
     (if nodes_stack b = [] then Inl (Logic ''Cannot modify - JSON object is already finished'')
      else (case deref (root b) (last (nodes_stack b)) of
              None \<Rightarrow> Inl Dangling
            | Some v \<Rightarrow> Inr v))"

definition Build :: "builder \<Rightarrow> builder_error + node" where
  "Build b =
     (if nodes_stack b \<noteq> [] then Inl (Logic ''Cannot build JSON - object is not finished'')
      else Inr (root b))"

definition AddObject :: "node \<Rightarrow> bool \<Rightarrow> builder \<Rightarrow> builder_error + builder" where
  "AddObject val is_single_value b =
     (case GetCurValue b of
        Inl e \<Rightarrow> Inl e
      | Inr current_value \<Rightarrow>
          (let top = last (nodes_stack b) in
           case current_value of
             Array xs \<Rightarrow>
               (let b' = b\<lparr>root := assign top (Array (xs @ [val])) (root b)\<rparr>
                in if \<not> is_single_value
                   then Inr (b'\<lparr>nodes_stack := nodes_stack b @ [top @ [Elem (length xs)]]\<rparr>)
                   else Inr b')
           | _ \<Rightarrow>
               if current_value \<noteq> Null
               then Inl (Logic ''Cannot set value - current object is not empty'')
               else (let b' = b\<lparr>root := assign top val (root b)\<rparr>
                     in if is_single_value
                        then Inr (b'\<lparr>nodes_stack := butlast (nodes_stack b)\<rparr>)
                        else Inr b')))"

definition StartDict :: "builder \<Rightarrow> builder_error + builder" where
  "StartDict b = AddObject (Dict []) False b"

definition StartArray :: "builder \<Rightarrow> builder_error + builder" where
  "StartArray b = AddObject (Array []) False b"

definition EndDict :: "builder \<Rightarrow> builder_error + builder" where
  "EndDict b =
     (case GetCurValue b of
        Inl e \<Rightarrow> Inl e
      | Inr current_value \<Rightarrow>
          (case current_value of
             Dict d \<Rightarrow> Inr (b\<lparr>nodes_stack := butlast (nodes_stack b)\<rparr>)
           | _ \<Rightarrow> Inl (Logic ''Cannot end dict - current value is not a dictionary'')))"

definition EndArray :: "builder \<Rightarrow> builder_error + builder" where
  "EndArray b =
     (case GetCurValue b of
        Inl e \<Rightarrow> Inl e
      | Inr current_value \<Rightarrow>
          (case current_value of
             Array xs \<Rightarrow> Inr (b\<lparr>nodes_stack := butlast (nodes_stack b)\<rparr>)
           | _ \<Rightarrow> Inl (Logic ''Cannot end array - current value is not an array'')))"

text \<open>\<^verbatim>\<open>Key\<close>: \<^verbatim>\<open>operator[]\<close> of the map finds the entry of the key, or inserts the key with
  a null node; the pointer to that entry is pushed.\<close>

definition Key :: "string \<Rightarrow> builder \<Rightarrow> builder_error + builder" where
  "Key key b =
     (case GetCurValue b of
        Inl e \<Rightarrow> Inl e
      | Inr current_value \<Rightarrow>
          (let top = last (nodes_stack b) in
           case current_value of
             Dict d \<Rightarrow>
               Inr (b\<lparr>root := assign top (Dict (dict_emplace key Null d)) (root b),
                       nodes_stack := nodes_stack b @ [top @ [Field key]]\<rparr>)
           | _ \<Rightarrow> Inl (Logic ''Cannot use Key() - current object is not a dictionary'')))"

definition Value :: "node \<Rightarrow> builder \<Rightarrow> builder_error + builder" where
  "Value val b = AddObject val True b"

text \<open>A chain of calls: each call on the builder the one before returned; an exception
  ends the chain.\<close>

definition then_call ::
  "builder_error + builder \<Rightarrow> (builder \<Rightarrow> builder_error + 'a) \<Rightarrow> builder_error + 'a" where
  "then_call r f = (case r of Inl e \<Rightarrow> Inl e | Inr b \<Rightarrow> f b)"

subsection \<open>The body of a string literal, for stating properties\<close>

text \<open>
  What may stand between the quotes: a character written as itself, or a backslash and
  one character. \<open>decode_token\<close> is the character a token stands for, \<open>valid_token\<close> holds
  of the characters that may be written as themselves and of the five escapes the
  grammar knows.
\<close>

datatype token = Plain char | Escape char

fun render_token :: "token \<Rightarrow> string" where
  "render_token (Plain c) = [c]"
| "render_token (Escape c) = [bslash, c]"

fun decode_token :: "token \<Rightarrow> char" where
  "decode_token (Plain c) = c"
| "decode_token (Escape c) =
     (if c = CHR ''n'' then newline else if c = CHR ''t'' then htab
      else if c = CHR ''r'' then cret else c)"

definition recognized_escape :: "char \<Rightarrow> bool" where
  "recognized_escape c \<longleftrightarrow> c \<in> {CHR ''n'', CHR ''t'', CHR ''r'', dquote, bslash}"

fun valid_token :: "token \<Rightarrow> bool" where
  "valid_token (Plain c) \<longleftrightarrow> c \<notin> {dquote, bslash, newline, cret}"
| "valid_token (Escape c) \<longleftrightarrow> recognized_escape c"

subsection \<open>The entries of an object, for stating properties\<close>

text \<open>
  \<open>reads_entries s ks r\<close>: the text \<open>s\<close> begins with entries of an object whose keys are \<open>ks\<close>,
  in this order, and \<open>r\<close> is the text after the last of them. An entry is any run of white
  space and commas, the key between quotes, white space, a colon, and a value; a value is
  whatever text \<^verbatim>\<open>LoadNode\<close> reads as one.
\<close>

inductive reads_entries :: "istream \<Rightarrow> string list \<Rightarrow> istream \<Rightarrow> bool" where
  no_entry: "reads_entries s [] s"
| entry:
    "\<lbrakk>\<forall>c \<in> set sep. isspace c \<or> c = CHR '',''; \<forall>t \<in> set ts. valid_token t;
      \<forall>c \<in> set ws. isspace c; LoadNode n vt = Some (Inr (v, s')); reads_entries s' ks r\<rbrakk>
     \<Longrightarrow> reads_entries
           (sep @ dquote # concat (map render_token ts) @ dquote # ws @ CHR '':'' # vt)
           (map decode_token ts # ks) r"

subsection \<open>Numeric literals and the value of a double, for stating properties\<close>

text \<open>
  \<open>has_fraction_or_exponent\<close>: the literal has a point or an exponent mark.
  \<open>literal_value\<close>: the integer that a literal made of an optional minus sign and digits
  denotes. \<open>dvalue\<close>: the rational number a \<open>double\<close> stands for.
\<close>

definition has_fraction_or_exponent :: "string \<Rightarrow> bool" where
  "has_fraction_or_exponent lit \<longleftrightarrow>
     CHR ''.'' \<in> set lit \<or> CHR ''e'' \<in> set lit \<or> CHR ''E'' \<in> set lit"

definition literal_value :: "string \<Rightarrow> int" where
  "literal_value lit =
     (case lit of
        [] \<Rightarrow> 0
      | c # ds \<Rightarrow> if c = CHR ''-'' then - int (digits_value 0 ds) else int (digits_value 0 lit))"

definition dvalue :: "double \<Rightarrow> rat" where
  "dvalue x = (if dsign x then - 1 else 1) * of_nat (dmant x)
                * (if 0 \<le> dexp x then 2 ^ nat (dexp x) else 1 / 2 ^ nat (- dexp x))"

subsection \<open>Values without a double, for stating the round trip\<close>


definition delimited :: "string \<Rightarrow> bool" where
  "delimited s \<longleftrightarrow> (case s of [] \<Rightarrow> True | c # _ \<Rightarrow> \<not> isalpha c \<and> \<not> isdigit c \<and> c \<noteq> CHR ''.'')"


subsection \<open>Auxiliary notions for the proofs\<close>

text \<open>The continuation after a call of \<^verbatim>\<open>LoadNode\<close> inside a loop, and the part of an
  iteration of \<^verbatim>\<open>LoadDict\<close> from the key to the duplicate check.\<close>

definition bind_parse ::
  "node parse option \<Rightarrow> (node \<Rightarrow> istream \<Rightarrow> node parse option) \<Rightarrow> node parse option" where
  "bind_parse x f =
     (case x of None \<Rightarrow> None | Some (Inl e) \<Rightarrow> Some (Inl e) | Some (Inr (v, r)) \<Rightarrow> f v r)"

definition dict_key :: "dict \<Rightarrow> istream \<Rightarrow> error + string \<times> istream" where
  "dict_key d r =
     (case LoadString r of
        Inl e \<Rightarrow> Inl e
      | Inr (k, r1) \<Rightarrow>
          (case k of
             String key \<Rightarrow>
               (case read_char_ws r1 of
                  None \<Rightarrow> Inl (ParsingError
                     ('': is expected but '' @ [CHR 0x27, dquote, CHR 0x27] @ '' has been found''))
                | Some (c', r2) \<Rightarrow>
                    if c' = CHR '':'' then
                      (if dict_find key d \<noteq> None then
                         Inl (ParsingError (''Duplicate key '' @ [CHR 0x27] @ key
                            @ [CHR 0x27] @ '' have been found''))
                       else Inr (key, r2))
                    else Inl (ParsingError
                       ('': is expected but '' @ [CHR 0x27, c', CHR 0x27] @ '' has been found'')))
           | _ \<Rightarrow> Inl (LogicError ''Not a string'')))"

section \<open>Properties\<close>

subsection \<open>Fuel: the parser terminates, and its result does not depend on the fuel\<close>

lemma LoadArray_loop_Suc:
  "LoadArray_loop (Suc n) acc s =
     (case read_char_ws s of
        None \<Rightarrow> Some (Inl (ParsingError ''Array parsing error''))
      | Some (c, r) \<Rightarrow>
          if c = CHR '']'' then Some (Inr (Array acc, r))
          else bind_parse (LoadNode n (if c \<noteq> CHR '','' then c # r else r))
                 (\<lambda>v r'. LoadArray_loop n (acc @ [v]) r'))"
  by (simp add: LoadArray_loop.simps bind_parse_def split: option.split sum.split prod.split)

lemma LoadDict_loop_Suc:
  "LoadDict_loop (Suc n) d s =
     (case read_char_ws s of
        None \<Rightarrow> Some (Inl (ParsingError ''Dictionary parsing error''))
      | Some (c, r) \<Rightarrow>
          if c = CHR ''}'' then Some (Inr (Dict d, r))
          else if c = dquote then
            (case dict_key d r of
               Inl e \<Rightarrow> Some (Inl e)
             | Inr (key, r2) \<Rightarrow>
                 bind_parse (LoadNode n r2) (\<lambda>v r3. LoadDict_loop n (dict_emplace key v d) r3))
          else if c \<noteq> CHR '','' then
            Some (Inl (ParsingError
               ([CHR 0x27] @ '','' @ [CHR 0x27] @ '' is expected but '' @ [CHR 0x27, c, CHR 0x27]
                  @ '' has been found'')))
          else LoadDict_loop n d r)"
proof (cases "read_char_ws s")
  case None
  then show ?thesis by (simp add: LoadDict_loop.simps)
next
  case (Some p)
  obtain c r where p: "p = (c, r)" by (cases p)
  show ?thesis
  proof (cases "c = dquote")
    case False
    then show ?thesis using Some p by (simp add: LoadDict_loop.simps)
  next
    case True
    show ?thesis
    proof (cases "LoadString r")
      case (Inl e)
      then show ?thesis using Some p True by (simp add: LoadDict_loop.simps dict_key_def)
    next
      case (Inr q)
      obtain k r1 where q: "q = (k, r1)" by (cases q)
      show ?thesis
      proof (cases "read_char_ws r1")
        case None
        then show ?thesis using Some p True Inr q
          by (cases k) (simp_all add: LoadDict_loop.simps dict_key_def)
      next
        case (Some p2)
        obtain c' r2 where p2: "p2 = (c', r2)" by (cases p2)
        show ?thesis using \<open>read_char_ws s = Some p\<close> p True Inr q Some p2
          by (cases k) (simp_all add: LoadDict_loop.simps dict_key_def bind_parse_def
                split: option.split sum.split prod.split)
      qed
    qed
  qed
qed

lemma bind_parse_mono:
  assumes "bind_parse x f = Some r"
    and "\<And>y. x = Some y \<Longrightarrow> x' = Some y"
    and "\<And>v s y. f v s = Some y \<Longrightarrow> f' v s = Some y"
  shows "bind_parse x' f' = Some r"
proof (cases x)
  case None
  then show ?thesis using assms(1) by (simp add: bind_parse_def)
next
  case (Some y)
  then show ?thesis using assms by (cases y) (auto simp: bind_parse_def)
qed


lemma fuel_mono_aux:
  "(\<forall>s r. LoadNode n s = Some r \<longrightarrow> LoadNode (Suc n) s = Some r)
 \<and> (\<forall>acc s r. LoadArray_loop n acc s = Some r \<longrightarrow> LoadArray_loop (Suc n) acc s = Some r)
 \<and> (\<forall>d s r. LoadDict_loop n d s = Some r \<longrightarrow> LoadDict_loop (Suc n) d s = Some r)"
proof (induction n)
  case 0
  then show ?case by (simp add: LoadNode.simps LoadArray_loop.simps LoadDict_loop.simps)
next
  case (Suc n)
  then have IHN: "\<And>s r. LoadNode n s = Some r \<Longrightarrow> LoadNode (Suc n) s = Some r"
    and IHA: "\<And>acc s r. LoadArray_loop n acc s = Some r \<Longrightarrow> LoadArray_loop (Suc n) acc s = Some r"
    and IHD: "\<And>d s r. LoadDict_loop n d s = Some r \<Longrightarrow> LoadDict_loop (Suc n) d s = Some r"
    by blast+
  have N: "LoadNode (Suc (Suc n)) s = Some r" if h: "LoadNode (Suc n) s = Some r" for s r
  proof (cases "read_char_ws s")
    case None
    then show ?thesis using h by (simp add: LoadNode.simps(2))
  next
    case (Some p)
    obtain c t where p: "p = (c, t)" by (cases p)
    consider (arr) "c = CHR ''[''" | (dict) "c = CHR ''{''" | (other) "c \<noteq> CHR ''[''" "c \<noteq> CHR ''{''"
      by blast
    then show ?thesis
    proof cases
      case arr
      with h Some p have "LoadArray_loop n [] t = Some r" by (simp add: LoadNode.simps(2))
      from IHA[OF this] show ?thesis using Some p arr by (simp add: LoadNode.simps(2))
    next
      case dict
      with h Some p have "LoadDict_loop n [] t = Some r" by (simp add: LoadNode.simps(2))
      from IHD[OF this] show ?thesis using Some p dict by (simp add: LoadNode.simps(2))
    next
      case other
      then show ?thesis using h Some p by (simp add: LoadNode.simps(2))
    qed
  qed
  have A: "LoadArray_loop (Suc (Suc n)) acc s = Some r" if h: "LoadArray_loop (Suc n) acc s = Some r" for acc s r
  proof (cases "read_char_ws s")
    case None
    then show ?thesis using h by (simp add: LoadArray_loop_Suc)
  next
    case (Some p)
    obtain c t where p: "p = (c, t)" by (cases p)
    show ?thesis
    proof (cases "c = CHR '']''")
      case True
      then show ?thesis using h Some p by (simp add: LoadArray_loop_Suc)
    next
      case False
      let ?s' = "if c \<noteq> CHR '','' then c # t else t"
      from h Some p False
      have "bind_parse (LoadNode n ?s') (\<lambda>v r'. LoadArray_loop n (acc @ [v]) r') = Some r"
        by (simp add: LoadArray_loop_Suc[of n])
      then have "bind_parse (LoadNode (Suc n) ?s') (\<lambda>v r'. LoadArray_loop (Suc n) (acc @ [v]) r') = Some r"
        by (rule bind_parse_mono) (auto intro: IHN IHA)
      then show ?thesis using Some p False by (simp add: LoadArray_loop_Suc[of "Suc n"])
    qed
  qed
  have D: "LoadDict_loop (Suc (Suc n)) d s = Some r" if h: "LoadDict_loop (Suc n) d s = Some r" for d s r
  proof (cases "read_char_ws s")
    case None
    then show ?thesis using h by (simp add: LoadDict_loop_Suc)
  next
    case (Some p)
    obtain c t where p: "p = (c, t)" by (cases p)
    show ?thesis
    proof (cases "c = dquote")
      case False
      show ?thesis
      proof (cases "c = CHR '',''")
        case True
        with h Some p have "LoadDict_loop n d t = Some r" by (simp add: LoadDict_loop_Suc[of n])
        from IHD[OF this] show ?thesis using Some p True
          by (subst LoadDict_loop_Suc) simp
      next
        case ncomma: False
        then show ?thesis using h Some p False
          by (cases "c = CHR ''}''") (simp_all add: LoadDict_loop_Suc)
      qed
    next
      case True
      show ?thesis
      proof (cases "dict_key d t")
        case (Inl e)
        then show ?thesis using h Some p True by (simp add: LoadDict_loop_Suc)
      next
        case (Inr q)
        obtain key r2 where q: "q = (key, r2)" by (cases q)
        from h Some p True Inr q
        have "bind_parse (LoadNode n r2) (\<lambda>v r3. LoadDict_loop n (dict_emplace key v d) r3) = Some r"
          by (simp add: LoadDict_loop_Suc[of n])
        then have "bind_parse (LoadNode (Suc n) r2)
             (\<lambda>v r3. LoadDict_loop (Suc n) (dict_emplace key v d) r3) = Some r"
          by (rule bind_parse_mono) (auto intro: IHN IHD)
        then show ?thesis using Some p True Inr q by (simp add: LoadDict_loop_Suc[of "Suc n"])
      qed
    qed
  qed
  from N A D show ?case by blast
qed

lemma LoadNode_fuel_mono: "LoadNode n s = Some r \<Longrightarrow> n \<le> m \<Longrightarrow> LoadNode m s = Some r"
proof (induction m)
  case 0
  then show ?case by simp
next
  case (Suc m)
  then show ?case using fuel_mono_aux[of m] by (cases "n = Suc m") auto
qed

lemma read_char_ws_length: "read_char_ws s = Some (c, r) \<Longrightarrow> length r < length s"
  by (induction s) (auto split: if_splits)

lemma LoadString_loop_length: "LoadString_loop acc s = Inr (v, r) \<Longrightarrow> length r < length s"
  by (induction acc s rule: LoadString_loop.induct) (auto split: if_splits list.splits)

lemma LoadLiteral_loop_length: "length (snd (LoadLiteral_loop acc s)) \<le> length s"
  by (induction acc s rule: LoadLiteral_loop.induct) auto

lemma LoadLiteral_alpha_length:
  "isalpha c \<Longrightarrow> LoadLiteral (c # r) = (lit, rest) \<Longrightarrow> length rest \<le> length r"
  using LoadLiteral_loop_length[of "[c]" r] by (simp add: LoadLiteral_def)

lemma LoadBool_length:
  "c = CHR ''t'' \<or> c = CHR ''f'' \<Longrightarrow> LoadBool (c # r) = Inr (v, rest) \<Longrightarrow> length rest \<le> length r"
  by (auto simp: LoadBool_def isalpha_def split: prod.splits if_splits dest!: LoadLiteral_alpha_length[rotated])

lemma LoadNull_length:
  "LoadNull (CHR ''n'' # r) = Inr (v, rest) \<Longrightarrow> length rest \<le> length r"
  by (auto simp: LoadNull_def isalpha_def split: prod.splits if_splits dest!: LoadLiteral_alpha_length[rotated])

lemma read_digits_loop_length: "length (snd (read_digits_loop p s)) \<le> length s"
  by (induction p s rule: read_digits_loop.induct) auto

lemma read_digits_length: "read_digits p s = Inr (p', r) \<Longrightarrow> length r < length s"
  using read_digits_loop_length[of "p @ [hd s]" "tl s"]
  by (cases s) (auto simp: read_digits_def split: if_splits)

lemma scan_number_length: "scan_number s = Inr (p, b, r) \<Longrightarrow> length r < length s"
proof -
  assume h: "scan_number s = Inr (p, b, r)"
  obtain p0 r0 where m: "scan_minus s = (p0, r0)" by (cases "scan_minus s")
  then have l0: "length r0 \<le> length s" by (auto simp: scan_minus_def split: list.splits if_splits)
  from h m obtain p1 r1 where i: "scan_int_part p0 r0 = Inr (p1, r1)"
    by (cases "scan_int_part p0 r0") (auto simp: scan_number_def)
  then have l1: "length r1 < length r0"
    by (auto simp: scan_int_part_def split: list.splits if_splits dest: read_digits_length)
  from h m i obtain p2 b2 r2 where f: "scan_fraction p1 r1 = Inr (p2, b2, r2)"
    by (cases "scan_fraction p1 r1") (auto simp: scan_number_def)
  then have l2: "length r2 \<le> length r1"
    by (auto simp: scan_fraction_def split: list.splits if_splits sum.splits dest: read_digits_length)
  from h m i f have e: "scan_exponent p2 b2 r2 = Inr (p, b, r)" by (simp add: scan_number_def)
  then have "length r \<le> length r2"
    by (auto simp: scan_exponent_def split: list.splits if_splits sum.splits prod.splits
          dest: read_digits_length)
  with l0 l1 l2 show ?thesis by simp
qed

lemma LoadNumber_length: "LoadNumber s = Inr (v, r) \<Longrightarrow> length r < length s"
  by (auto simp: LoadNumber_def split: sum.splits dest: scan_number_length)

lemma dict_key_length: "dict_key d s = Inr (key, r) \<Longrightarrow> length r < length s"
  by (auto simp: dict_key_def LoadString_def split: sum.splits node.splits option.splits if_splits
        dest!: LoadString_loop_length read_char_ws_length)



lemma bind_parse_InrE:
  assumes "bind_parse x f = Some (Inr y)"
  obtains v r where "x = Some (Inr (v, r))" and "f v r = Some (Inr y)"
proof (cases x)
  case None
  then show ?thesis using assms by (simp add: bind_parse_def)
next
  case (Some z)
  then show ?thesis using assms that by (cases z) (auto simp: bind_parse_def)
qed

lemma bind_parse_not_None:
  assumes "x \<noteq> None" and "\<And>v r. x = Some (Inr (v, r)) \<Longrightarrow> f v r \<noteq> None"
  shows "bind_parse x f \<noteq> None"
proof (cases x)
  case None
  then show ?thesis using assms by simp
next
  case (Some z)
  then show ?thesis using assms(2) by (cases z) (auto simp: bind_parse_def)
qed

lemma shorter_aux:
  "(\<forall>s v r. LoadNode n s = Some (Inr (v, r)) \<longrightarrow> length r < length s)
 \<and> (\<forall>acc s v r. LoadArray_loop n acc s = Some (Inr (v, r)) \<longrightarrow> length r < length s)
 \<and> (\<forall>d s v r. LoadDict_loop n d s = Some (Inr (v, r)) \<longrightarrow> length r < length s)"
proof (induction n)
  case 0
  then show ?case by (simp add: LoadNode.simps LoadArray_loop.simps LoadDict_loop.simps)
next
  case (Suc n)
  then have IHN: "\<And>s v r. LoadNode n s = Some (Inr (v, r)) \<Longrightarrow> length r < length s"
    and IHA: "\<And>acc s v r. LoadArray_loop n acc s = Some (Inr (v, r)) \<Longrightarrow> length r < length s"
    and IHD: "\<And>d s v r. LoadDict_loop n d s = Some (Inr (v, r)) \<Longrightarrow> length r < length s"
    by blast+
  have N: "length r < length s" if h: "LoadNode (Suc n) s = Some (Inr (v, r))" for s v r
  proof (cases "read_char_ws s")
    case None
    then show ?thesis using h by (simp add: LoadNode.simps(2))
  next
    case (Some p)
    obtain c t where p: "p = (c, t)" by (cases p)
    from Some p have lt: "length t < length s" by (auto dest: read_char_ws_length)
    consider (arr) "c = CHR ''[''" | (dict) "c = CHR ''{''" | (str) "c = dquote"
      | (bool) "c = CHR ''t'' \<or> c = CHR ''f''" | (null) "c = CHR ''n''"
      | (num) "c \<noteq> CHR ''[''" "c \<noteq> CHR ''{''" "c \<noteq> dquote" "\<not> (c = CHR ''t'' \<or> c = CHR ''f'')"
          "c \<noteq> CHR ''n''"
      by blast
    then show ?thesis
    proof cases
      case arr
      with h Some p have "LoadArray_loop n [] t = Some (Inr (v, r))" by (simp add: LoadNode.simps(2))
      from IHA[OF this] lt show ?thesis by simp
    next
      case dict
      with h Some p have "LoadDict_loop n [] t = Some (Inr (v, r))" by (simp add: LoadNode.simps(2))
      from IHD[OF this] lt show ?thesis by simp
    next
      case str
      with h Some p have "LoadString_loop [] t = Inr (v, r)"
        by (simp add: LoadNode.simps(2) LoadString_def)
      from LoadString_loop_length[OF this] lt show ?thesis by simp
    next
      case bool
      with h Some p have "LoadBool (c # t) = Inr (v, r)" by (auto simp: LoadNode.simps(2))
      from LoadBool_length[OF bool this] lt show ?thesis by simp
    next
      case null
      with h Some p have "LoadNull (CHR ''n'' # t) = Inr (v, r)" by (simp add: LoadNode.simps(2))
      from LoadNull_length[OF this] lt show ?thesis by simp
    next
      case num
      with h Some p have "LoadNumber (c # t) = Inr (v, r)" by (simp add: LoadNode.simps(2))
      from LoadNumber_length[OF this] lt show ?thesis by simp
    qed
  qed
  have A: "length r < length s" if h: "LoadArray_loop (Suc n) acc s = Some (Inr (v, r))" for acc s v r
  proof (cases "read_char_ws s")
    case None
    then show ?thesis using h by (simp add: LoadArray_loop_Suc)
  next
    case (Some p)
    obtain c t where p: "p = (c, t)" by (cases p)
    from Some p have lt: "length t < length s" by (auto dest: read_char_ws_length)
    show ?thesis
    proof (cases "c = CHR '']''")
      case True
      then show ?thesis using h Some p lt by (simp add: LoadArray_loop_Suc)
    next
      case False
      let ?s' = "if c \<noteq> CHR '','' then c # t else t"
      from h Some p False
      have "bind_parse (LoadNode n ?s') (\<lambda>v r'. LoadArray_loop n (acc @ [v]) r') = Some (Inr (v, r))"
        by (simp add: LoadArray_loop_Suc[of n])
      then obtain v' r' where 1: "LoadNode n ?s' = Some (Inr (v', r'))"
        and 2: "LoadArray_loop n (acc @ [v']) r' = Some (Inr (v, r))"
        by (rule bind_parse_InrE)
      from IHN[OF 1] IHA[OF 2] lt show ?thesis by (simp split: if_splits)
    qed
  qed
  have D: "length r < length s" if h: "LoadDict_loop (Suc n) d s = Some (Inr (v, r))" for d s v r
  proof (cases "read_char_ws s")
    case None
    then show ?thesis using h by (simp add: LoadDict_loop_Suc)
  next
    case (Some p)
    obtain c t where p: "p = (c, t)" by (cases p)
    from Some p have lt: "length t < length s" by (auto dest: read_char_ws_length)
    show ?thesis
    proof (cases "c = dquote")
      case False
      show ?thesis
      proof (cases "c = CHR '',''")
        case True
        with h Some p have "LoadDict_loop n d t = Some (Inr (v, r))" by (simp add: LoadDict_loop_Suc[of n])
        from IHD[OF this] lt show ?thesis by simp
      next
        case ncomma: False
        then show ?thesis using h Some p False lt
          by (cases "c = CHR ''}''") (simp_all add: LoadDict_loop_Suc)
      qed
    next
      case True
      show ?thesis
      proof (cases "dict_key d t")
        case (Inl e)
        then show ?thesis using h Some p True by (simp add: LoadDict_loop_Suc)
      next
        case (Inr q)
        obtain key r2 where q: "q = (key, r2)" by (cases q)
        from h Some p True Inr q
        have "bind_parse (LoadNode n r2) (\<lambda>v r3. LoadDict_loop n (dict_emplace key v d) r3)
                = Some (Inr (v, r))"
          by (simp add: LoadDict_loop_Suc[of n])
        then obtain v' r' where 1: "LoadNode n r2 = Some (Inr (v', r'))"
          and 2: "LoadDict_loop n (dict_emplace key v' d) r' = Some (Inr (v, r))"
          by (rule bind_parse_InrE)
        from IHN[OF 1] IHD[OF 2] lt dict_key_length[of d t key r2] Inr q show ?thesis by simp
      qed
    qed
  qed
  from N A D show ?case by blast
qed

lemma LoadNode_consumes: "LoadNode n s = Some (Inr (v, r)) \<Longrightarrow> length r < length s"
  using shorter_aux[of n] by blast



lemma total_aux:
  "(\<forall>s. 1 \<le> n \<and> 2 * length s \<le> n \<longrightarrow> LoadNode n s \<noteq> None)
 \<and> (\<forall>acc s. 2 * length s + 1 \<le> n \<longrightarrow> LoadArray_loop n acc s \<noteq> None)
 \<and> (\<forall>d s. 2 * length s + 1 \<le> n \<longrightarrow> LoadDict_loop n d s \<noteq> None)"
proof (induction n)
  case 0
  then show ?case by simp
next
  case (Suc n)
  then have IHN: "\<And>s. 1 \<le> n \<Longrightarrow> 2 * length s \<le> n \<Longrightarrow> LoadNode n s \<noteq> None"
    and IHA: "\<And>acc s. 2 * length s + 1 \<le> n \<Longrightarrow> LoadArray_loop n acc s \<noteq> None"
    and IHD: "\<And>d s. 2 * length s + 1 \<le> n \<Longrightarrow> LoadDict_loop n d s \<noteq> None"
    by blast+
  have N: "LoadNode (Suc n) s \<noteq> None" if b: "2 * length s \<le> Suc n" for s
  proof (cases "read_char_ws s")
    case None
    then show ?thesis by (simp add: LoadNode.simps(2))
  next
    case (Some p)
    obtain c t where p: "p = (c, t)" by (cases p)
    from Some p have lt: "length t < length s" by (auto dest: read_char_ws_length)
    with b have b': "2 * length t + 1 \<le> n" by simp
    show ?thesis using Some p IHA[OF b'] IHD[OF b'] by (simp add: LoadNode.simps(2))
  qed
  have A: "LoadArray_loop (Suc n) acc s \<noteq> None" if b: "2 * length s + 1 \<le> Suc n" for acc s
  proof (cases "read_char_ws s")
    case None
    then show ?thesis by (simp add: LoadArray_loop_Suc)
  next
    case (Some p)
    obtain c t where p: "p = (c, t)" by (cases p)
    from Some p have lt: "length t < length s" by (auto dest: read_char_ws_length)
    let ?s' = "if c \<noteq> CHR '','' then c # t else t"
    have ls': "length ?s' \<le> length s" using lt by simp
    have "bind_parse (LoadNode n ?s') (\<lambda>v r'. LoadArray_loop n (acc @ [v]) r') \<noteq> None"
    proof (rule bind_parse_not_None)
      show "LoadNode n ?s' \<noteq> None" using b ls' lt by (intro IHN) auto
    next
      fix v r assume "LoadNode n ?s' = Some (Inr (v, r))"
      from LoadNode_consumes[OF this] ls' b show "LoadArray_loop n (acc @ [v]) r \<noteq> None"
        by (intro IHA) simp
    qed
    then show ?thesis using Some p by (simp add: LoadArray_loop_Suc)
  qed
  have D: "LoadDict_loop (Suc n) d s \<noteq> None" if b: "2 * length s + 1 \<le> Suc n" for d s
  proof (cases "read_char_ws s")
    case None
    then show ?thesis by (simp add: LoadDict_loop_Suc)
  next
    case (Some p)
    obtain c t where p: "p = (c, t)" by (cases p)
    from Some p have lt: "length t < length s" by (auto dest: read_char_ws_length)
    have cont: "LoadDict_loop n d t \<noteq> None" using lt b by (intro IHD) simp
    have key: "bind_parse (LoadNode n r2) (\<lambda>v r3. LoadDict_loop n (dict_emplace key v d) r3) \<noteq> None"
      if k: "dict_key d t = Inr (key, r2)" for key r2
    proof (rule bind_parse_not_None)
      from dict_key_length[OF k] lt b show "LoadNode n r2 \<noteq> None" by (intro IHN) auto
    next
      fix v r assume "LoadNode n r2 = Some (Inr (v, r))"
      from LoadNode_consumes[OF this] dict_key_length[OF k] lt b
      show "LoadDict_loop n (dict_emplace key v d) r \<noteq> None" by (intro IHD) simp
    qed
    show ?thesis
    proof (cases "dict_key d t")
      case (Inl e)
      then show ?thesis using Some p cont by (subst LoadDict_loop_Suc) simp
    next
      case (Inr q)
      obtain key r2 where q: "q = (key, r2)" by (cases q)
      from key[of key r2] Inr q have "bind_parse (LoadNode n r2) (\<lambda>v r3. LoadDict_loop n (dict_emplace key v d) r3) \<noteq> None" by simp
      then show ?thesis using Some p cont Inr q by (subst LoadDict_loop_Suc) simp
    qed
  qed
  from N A D show ?case by blast
qed



theorem Load_total: "Load s \<noteq> None"
proof -
  have "\<forall>s'. 1 \<le> 2 * length s + 1 \<and> 2 * length s' \<le> 2 * length s + 1
          \<longrightarrow> LoadNode (2 * length s + 1) s' \<noteq> None"
    using total_aux[of "2 * length s + 1"] by (rule conjunct1)
  then have "1 \<le> 2 * length s + 1 \<and> 2 * length s \<le> 2 * length s + 1
          \<longrightarrow> LoadNode (2 * length s + 1) s \<noteq> None" by (rule spec)
  moreover have "1 \<le> 2 * length s + 1 \<and> 2 * length s \<le> 2 * length s + 1" by arith
  ultimately show ?thesis unfolding Load_def by (rule mp)
qed

lemma Load_fuel_independent:
  assumes "LoadNode n s = Some r"
  shows "Load s = Some r"
proof (cases "n \<le> 2 * length s + 1")
  case True
  from LoadNode_fuel_mono[OF assms True] show ?thesis unfolding Load_def .
next
  case False
  then have le: "2 * length s + 1 \<le> n" by arith
  obtain r' where r': "Load s = Some r'" using Load_total[of s] by blast
  then have "LoadNode (2 * length s + 1) s = Some r'" unfolding Load_def .
  from LoadNode_fuel_mono[OF this le] assms have "r' = r" by (simp del: One_nat_def)
  with r' show ?thesis by blast
qed


subsection \<open>Commas in arrays\<close>

lemma read_char_ws_not_space: "read_char_ws s = Some (c, t) \<Longrightarrow> \<not> isspace c"
  by (induction s) (auto split: if_splits)

lemma read_char_ws_again: "read_char_ws s = Some (c, t) \<Longrightarrow> read_char_ws (c # t) = Some (c, t)"
  by (simp add: read_char_ws_not_space)

lemma LoadNode_skips_space:
  assumes "read_char_ws s = Some (c, t)"
  shows "LoadNode n s = LoadNode n (c # t)"
proof (cases n)
  case 0
  then show ?thesis by (simp add: LoadNode.simps)
next
  case (Suc m)
  show ?thesis unfolding Suc LoadNode.simps(2)
    by (simp only: assms read_char_ws_again[OF assms])
qed

lemma comma_not_space: "\<not> isspace CHR '',''"
  by (simp add: isspace_def)

lemma LoadNumber_no_digit:
  assumes "\<not> isdigit c" and "c \<noteq> CHR ''-''"
  shows "LoadNumber (c # t) = Inl (ParsingError ''A digit is expected'')"
proof -
  have "c \<noteq> CHR ''0''" using assms(1) by (auto simp: isdigit_def)
  then show ?thesis using assms
    by (simp add: LoadNumber_def scan_number_def scan_minus_def scan_int_part_def read_digits_def)
qed

text \<open>
  C10, as the code has it. \<^verbatim>\<open>LoadArray\<close> does not enforce comma placement: in front of an
  element one comma is skipped when it is there and none is asked for, so the loop gives the
  same result with and without it; \<^verbatim>\<open>[1 2]\<close> parses to the array of \<open>1\<close> and \<open>2\<close>, and \<^verbatim>\<open>[,1]\<close>
  to the array of \<open>1\<close>. Commas are not ignored altogether: a comma followed by another comma
  or by \<^verbatim>\<open>]\<close> makes the loop read that character as a number, which is the parsing error
  "A digit is expected".
\<close>

theorem LoadArray_comma_optional:
  "(read_char_ws s = Some (c, t) \<and> c \<noteq> CHR '','' \<and> c \<noteq> CHR '']'' \<longrightarrow>
      LoadArray_loop (Suc n) acc (CHR '','' # s) = LoadArray_loop (Suc n) acc s)
 \<and> (read_char_ws s = Some (c, t) \<and> (c = CHR '','' \<or> c = CHR '']'') \<longrightarrow>
      LoadArray_loop (Suc (Suc n)) acc (CHR '','' # s)
        = Some (Inl (ParsingError ''A digit is expected'')))
 \<and> Load ''[1 2]'' = Some (Inr (Array [Int32 1, Int32 2], []))
 \<and> Load ''[,1]'' = Some (Inr (Array [Int32 1], []))"
proof (intro conjI impI)
  assume h: "read_char_ws s = Some (c, t) \<and> c \<noteq> CHR '','' \<and> c \<noteq> CHR '']''"
  then have r: "read_char_ws s = Some (c, t)" by simp
  have "LoadArray_loop (Suc n) acc (CHR '','' # s)
          = bind_parse (LoadNode n s) (\<lambda>v r'. LoadArray_loop n (acc @ [v]) r')"
    by (simp add: LoadArray_loop_Suc comma_not_space)
  also have "\<dots> = bind_parse (LoadNode n (c # t)) (\<lambda>v r'. LoadArray_loop n (acc @ [v]) r')"
    by (simp only: LoadNode_skips_space[OF r])
  also have "\<dots> = LoadArray_loop (Suc n) acc s"
    using h by (simp add: LoadArray_loop_Suc)
  finally show "LoadArray_loop (Suc n) acc (CHR '','' # s) = LoadArray_loop (Suc n) acc s" .
next
  assume h: "read_char_ws s = Some (c, t) \<and> (c = CHR '','' \<or> c = CHR '']'')"
  then have r: "read_char_ws s = Some (c, t)" and c: "c = CHR '','' \<or> c = CHR '']''" by simp_all
  from c have nd: "\<not> isdigit c" "c \<noteq> CHR ''-''" by (auto simp: isdigit_def)
  have "LoadNode (Suc n) s = Some (LoadNumber (c # t))"
    using r c by (auto simp: LoadNode.simps(2))
  then have "LoadNode (Suc n) s = Some (Inl (ParsingError ''A digit is expected''))"
    by (simp only: LoadNumber_no_digit[OF nd])
  then show "LoadArray_loop (Suc (Suc n)) acc (CHR '','' # s)
        = Some (Inl (ParsingError ''A digit is expected''))"
    by (simp add: LoadArray_loop_Suc[of "Suc n"] comma_not_space bind_parse_def)
next
  show "Load ''[1 2]'' = Some (Inr (Array [Int32 1, Int32 2], []))" by code_simp
next
  show "Load ''[,1]'' = Some (Inr (Array [Int32 1], []))" by code_simp
qed

theorem LoadArray_comma_optional_witness:
  "LoadArray_loop 3 [] '', 2]'' = LoadArray_loop 3 [] '' 2]''
   \<and> LoadArray_loop 3 [] '' 2]'' = Some (Inr (Array [Int32 2], []))
   \<and> LoadArray_loop 2 [] '',,1]'' = Some (Inl (ParsingError ''A digit is expected''))
   \<and> LoadArray_loop 2 [] '',]'' = Some (Inl (ParsingError ''A digit is expected''))"
proof -
  have r1: "read_char_ws '' 2]'' = Some (CHR ''2'', '']'')
      \<and> CHR ''2'' \<noteq> CHR '','' \<and> CHR ''2'' \<noteq> CHR '']''"
    by (simp add: isspace_def)
  have r2: "read_char_ws '',1]'' = Some (CHR '','', ''1]'')
      \<and> (CHR '','' = CHR '','' \<or> CHR '','' = CHR '']'')"
    by (simp add: isspace_def)
  have r3: "read_char_ws '']'' = Some (CHR '']'', [])
      \<and> (CHR '']'' = CHR '','' \<or> CHR '']'' = CHR '']'')"
    by (simp add: isspace_def)
  have e: "LoadArray_loop 3 [] '' 2]'' = Some (Inr (Array [Int32 2], []))" by code_simp
  have n3: "(3::nat) = Suc 2" and n2: "(2::nat) = Suc (Suc 0)" by simp_all
  from LoadArray_comma_optional [of "'' 2]''" "CHR ''2''" "'']''" 2 "[]"]
       LoadArray_comma_optional [of "'',1]''" "CHR '',''" "''1]''" 0 "[]"]
       LoadArray_comma_optional [of "'']''" "CHR '']''" "[]" 0 "[]"]
       r1 r2 r3 e
  show ?thesis unfolding n3 n2 by blast
qed

text \<open>A comma before the first element is an error when a second comma follows:
  \<^verbatim>\<open>[,,1]\<close> is rejected.\<close>

theorem Load_second_comma_rejected:
  "Load ''[,,1]'' = Some (Inl (ParsingError ''A digit is expected''))"
  by code_simp

subsection \<open>Pointers of the builder\<close>

lemma deref_append:
  "deref v (p @ q) = (case deref v p of None \<Rightarrow> None | Some u \<Rightarrow> deref u q)"
  by (induction v p rule: deref.induct) (auto split: option.splits)

lemma map_of_assign_entry:
  "map_of d k = Some v \<Longrightarrow>
   map_of (map (\<lambda>(k', v). if k' = k then (k', f v) else (k', v)) d) k = Some (f v)"
  by (induction d) (auto split: if_splits)

lemma deref_assign: "deref v p = Some u \<Longrightarrow> deref (assign p w v) p = Some w"
proof (induction v p arbitrary: u rule: deref.induct)
  case (3 d k p)
  then show ?case by (auto split: option.splits simp: map_of_assign_entry)
qed (auto split: if_splits)

subsection \<open>The builder protocol\<close>

text \<open>
  C9. From the fresh builder, the calls \<^verbatim>\<open>StartArray\<close>, \<^verbatim>\<open>Value(1)\<close>, \<^verbatim>\<open>Value(2)\<close>, \<^verbatim>\<open>EndArray\<close>,
  \<^verbatim>\<open>Build\<close> all succeed, and \<^verbatim>\<open>Build\<close> returns the array of \<open>1\<close> and \<open>2\<close>, in call order.
\<close>

theorem Builder_array_sequence:
  "then_call (then_call (then_call (then_call (StartArray Builder) (Value (Int32 1)))
      (Value (Int32 2))) EndArray) Build = Inr (Array [Int32 1, Int32 2])"
  by (simp add: then_call_def StartArray_def Value_def EndArray_def Build_def Builder_def
       AddObject_def GetCurValue_def)

text \<open>
  C8, as the code has it. Every call is checked against the node that the top of the stack
  points to, not against the calls made before, and a call that fails the check throws:
  every operation but \<^verbatim>\<open>Build\<close> when the stack is empty, that is once the document is
  finished; \<^verbatim>\<open>Build\<close> when the stack is not empty; \<^verbatim>\<open>Key\<close> when the node is not a
  dictionary; \<^verbatim>\<open>EndArray\<close> when it is not an array; \<^verbatim>\<open>EndDict\<close> when it is not a dictionary;
  \<^verbatim>\<open>Value\<close>, \<^verbatim>\<open>StartDict\<close> and \<^verbatim>\<open>StartArray\<close> when it is neither null nor an array. A call
  that passes the check succeeds.
\<close>

theorem Builder_calls_checked_on_top_node:
  "(nodes_stack b = [] \<longrightarrow>
      (\<forall>f \<in> {Key k, Value w, StartDict, StartArray, EndDict, EndArray}.
         f b = Inl (Logic ''Cannot modify - JSON object is already finished'')))
 \<and> (nodes_stack b \<noteq> [] \<longrightarrow>
      Build b = Inl (Logic ''Cannot build JSON - object is not finished''))
 \<and> (nodes_stack b = [] \<longrightarrow> Build b = Inr (root b))
 \<and> (GetCurValue b = Inr v \<and> (\<forall>d. v \<noteq> Dict d) \<longrightarrow>
      Key k b = Inl (Logic ''Cannot use Key() - current object is not a dictionary''))
 \<and> (GetCurValue b = Inr v \<and> (\<exists>d. v = Dict d) \<longrightarrow> (\<exists>b'. Key k b = Inr b'))
 \<and> (GetCurValue b = Inr v \<and> (\<forall>xs. v \<noteq> Array xs) \<longrightarrow>
      EndArray b = Inl (Logic ''Cannot end array - current value is not an array''))
 \<and> (GetCurValue b = Inr v \<and> (\<exists>xs. v = Array xs) \<longrightarrow>
      EndArray b = Inr (b\<lparr>nodes_stack := butlast (nodes_stack b)\<rparr>))
 \<and> (GetCurValue b = Inr v \<and> (\<forall>d. v \<noteq> Dict d) \<longrightarrow>
      EndDict b = Inl (Logic ''Cannot end dict - current value is not a dictionary''))
 \<and> (GetCurValue b = Inr v \<and> (\<exists>d. v = Dict d) \<longrightarrow>
      EndDict b = Inr (b\<lparr>nodes_stack := butlast (nodes_stack b)\<rparr>))
 \<and> (GetCurValue b = Inr v \<and> v \<noteq> Null \<and> (\<forall>xs. v \<noteq> Array xs) \<longrightarrow>
      (\<forall>f \<in> {Value w, StartDict, StartArray}.
         f b = Inl (Logic ''Cannot set value - current object is not empty'')))
 \<and> (GetCurValue b = Inr v \<and> (v = Null \<or> (\<exists>xs. v = Array xs)) \<longrightarrow>
      (\<forall>f \<in> {Value w, StartDict, StartArray}. \<exists>b'. f b = Inr b'))"
proof (intro conjI impI)
  assume "nodes_stack b = []"
  then have "GetCurValue b = Inl (Logic ''Cannot modify - JSON object is already finished'')"
    by (simp add: GetCurValue_def)
  then show "\<forall>f \<in> {Key k, Value w, StartDict, StartArray, EndDict, EndArray}.
         f b = Inl (Logic ''Cannot modify - JSON object is already finished'')"
    by (simp add: Key_def Value_def StartDict_def StartArray_def EndDict_def EndArray_def
          AddObject_def)
next
  assume "nodes_stack b \<noteq> []"
  then show "Build b = Inl (Logic ''Cannot build JSON - object is not finished'')"
    by (simp add: Build_def)
next
  assume "nodes_stack b = []"
  then show "Build b = Inr (root b)" by (simp add: Build_def)
next
  assume "GetCurValue b = Inr v \<and> (\<forall>d. v \<noteq> Dict d)"
  then show "Key k b = Inl (Logic ''Cannot use Key() - current object is not a dictionary'')"
    by (cases v) (simp_all add: Key_def)
next
  assume "GetCurValue b = Inr v \<and> (\<exists>d. v = Dict d)"
  then show "\<exists>b'. Key k b = Inr b'" by (cases v) (simp_all add: Key_def Let_def)
next
  assume "GetCurValue b = Inr v \<and> (\<forall>xs. v \<noteq> Array xs)"
  then show "EndArray b = Inl (Logic ''Cannot end array - current value is not an array'')"
    by (cases v) (simp_all add: EndArray_def)
next
  assume "GetCurValue b = Inr v \<and> (\<exists>xs. v = Array xs)"
  then show "EndArray b = Inr (b\<lparr>nodes_stack := butlast (nodes_stack b)\<rparr>)"
    by (cases v) (simp_all add: EndArray_def)
next
  assume "GetCurValue b = Inr v \<and> (\<forall>d. v \<noteq> Dict d)"
  then show "EndDict b = Inl (Logic ''Cannot end dict - current value is not a dictionary'')"
    by (cases v) (simp_all add: EndDict_def)
next
  assume "GetCurValue b = Inr v \<and> (\<exists>d. v = Dict d)"
  then show "EndDict b = Inr (b\<lparr>nodes_stack := butlast (nodes_stack b)\<rparr>)"
    by (cases v) (simp_all add: EndDict_def)
next
  assume "GetCurValue b = Inr v \<and> v \<noteq> Null \<and> (\<forall>xs. v \<noteq> Array xs)"
  then have "AddObject x s b = Inl (Logic ''Cannot set value - current object is not empty'')"
    for x s
    by (cases v) (simp_all add: AddObject_def)
  then show "\<forall>f \<in> {Value w, StartDict, StartArray}.
         f b = Inl (Logic ''Cannot set value - current object is not empty'')"
    by (simp add: Value_def StartDict_def StartArray_def)
next
  assume "GetCurValue b = Inr v \<and> (v = Null \<or> (\<exists>xs. v = Array xs))"
  then have "\<exists>b'. AddObject x s b = Inr b'" for x s
    by (cases v) (auto simp: AddObject_def Let_def)
  then show "\<forall>f \<in> {Value w, StartDict, StartArray}. \<exists>b'. f b = Inr b'"
    by (simp add: Value_def StartDict_def StartArray_def)
qed

theorem Builder_calls_checked_on_top_node_witness:
  "Value (Int32 2) \<lparr>root = Int32 1, nodes_stack = []\<rparr>
     = Inl (Logic ''Cannot modify - JSON object is already finished'')
 \<and> Build \<lparr>root = Int32 1, nodes_stack = []\<rparr> = Inr (Int32 1)
 \<and> Build \<lparr>root = Array [], nodes_stack = [[]]\<rparr>
     = Inl (Logic ''Cannot build JSON - object is not finished'')
 \<and> Key ''x'' \<lparr>root = Array [], nodes_stack = [[]]\<rparr>
     = Inl (Logic ''Cannot use Key() - current object is not a dictionary'')
 \<and> EndDict \<lparr>root = Array [], nodes_stack = [[]]\<rparr>
     = Inl (Logic ''Cannot end dict - current value is not a dictionary'')
 \<and> EndArray \<lparr>root = Array [], nodes_stack = [[]]\<rparr> = Inr \<lparr>root = Array [], nodes_stack = []\<rparr>
 \<and> (\<exists>b'. Value (Int32 2) \<lparr>root = Array [], nodes_stack = [[]]\<rparr> = Inr b')
 \<and> (\<exists>b'. Key ''x'' \<lparr>root = Dict [], nodes_stack = [[]]\<rparr> = Inr b')
 \<and> EndArray \<lparr>root = Dict [], nodes_stack = [[]]\<rparr>
     = Inl (Logic ''Cannot end array - current value is not an array'')
 \<and> EndDict \<lparr>root = Dict [], nodes_stack = [[]]\<rparr> = Inr \<lparr>root = Dict [], nodes_stack = []\<rparr>
 \<and> Value (Int32 2) \<lparr>root = Dict [], nodes_stack = [[]]\<rparr>
     = Inl (Logic ''Cannot set value - current object is not empty'')
 \<and> StartArray \<lparr>root = Dict [], nodes_stack = [[]]\<rparr>
     = Inl (Logic ''Cannot set value - current object is not empty'')"
proof -
  let ?f = "\<lparr>root = Int32 1, nodes_stack = []\<rparr>"
  let ?a = "\<lparr>root = Array [], nodes_stack = [[]]\<rparr>"
  let ?d = "\<lparr>root = Dict [], nodes_stack = [[]]\<rparr>"
  have f: "nodes_stack ?f = []" by simp
  have a: "nodes_stack ?a \<noteq> []" "GetCurValue ?a = Inr (Array [])"
    by (simp_all add: GetCurValue_def)
  have d: "GetCurValue ?d = Inr (Dict [])" by (simp add: GetCurValue_def)
  have av: "\<forall>d. Array [] \<noteq> Dict d" "\<exists>xs. Array ([]::node list) = Array xs"
    "Array [] = Null \<or> (\<exists>xs. Array ([]::node list) = Array xs)" by simp_all
  have dv: "\<exists>d'. Dict ([]::dict) = Dict d'" "\<forall>xs. Dict [] \<noteq> Array xs"
    "Dict [] \<noteq> Null" by simp_all
  note F = Builder_calls_checked_on_top_node [of ?f "''x''" "Int32 2" Null]
  note A = Builder_calls_checked_on_top_node [of ?a "''x''" "Int32 2" "Array []"]
  note D = Builder_calls_checked_on_top_node [of ?d "''x''" "Int32 2" "Dict []"]
  have 1: "Value (Int32 2) ?f = Inl (Logic ''Cannot modify - JSON object is already finished'')"
    using F f by blast
  have 2: "Build ?f = Inr (Int32 1)" using F f by simp
  have 3: "Build ?a = Inl (Logic ''Cannot build JSON - object is not finished'')"
    using A a(1) by blast
  have 4: "Key ''x'' ?a = Inl (Logic ''Cannot use Key() - current object is not a dictionary'')"
    using A a(2) av(1) by blast
  have 5: "EndDict ?a = Inl (Logic ''Cannot end dict - current value is not a dictionary'')"
    using A a(2) av(1) by blast
  have 6: "EndArray ?a = Inr \<lparr>root = Array [], nodes_stack = []\<rparr>"
    using A a(2) av(2) by simp
  have 7: "\<exists>b'. Value (Int32 2) ?a = Inr b'" using A a(2) av(3) by blast
  have 8: "\<exists>b'. Key ''x'' ?d = Inr b'" using D d dv(1) by blast
  have 9: "EndArray ?d = Inl (Logic ''Cannot end array - current value is not an array'')"
    using D d dv(2) by blast
  have 10: "EndDict ?d = Inr \<lparr>root = Dict [], nodes_stack = []\<rparr>"
    using D d dv(1) by simp
  have 11: "Value (Int32 2) ?d = Inl (Logic ''Cannot set value - current object is not empty'')"
    "StartArray ?d = Inl (Logic ''Cannot set value - current object is not empty'')"
    using D d dv(2,3) by blast+
  from 1 2 3 4 5 6 7 8 9 10 11 show ?thesis by blast
qed

text \<open>
  A call that the calls before it make illegal is not detected when the node passes the
  check. After \<^verbatim>\<open>StartDict\<close>, \<^verbatim>\<open>Key("a")\<close>, \<^verbatim>\<open>StartDict\<close>, \<^verbatim>\<open>EndDict\<close>, the second \<^verbatim>\<open>Key("a")\<close>
  makes the entry of \<^verbatim>\<open>a\<close>, which holds the dictionary closed before, the current node;
  \<^verbatim>\<open>Key("b")\<close>, called while the key \<^verbatim>\<open>a\<close> awaits its value, returns normally and adds \<^verbatim>\<open>b\<close>
  to that dictionary.
\<close>

theorem Key_after_repeated_Key_succeeds:
  "then_call (then_call (then_call (then_call (then_call (StartDict Builder) (Key ''a''))
      StartDict) EndDict) (Key ''a'')) (Key ''b'')
   = Inr \<lparr>root = Dict [(''a'', Dict [(''b'', Null)])],
          nodes_stack = [[], [Field ''a''], [Field ''a'', Field ''b'']]\<rparr>"
  by (simp add: then_call_def StartDict_def EndDict_def Key_def Builder_def
       AddObject_def GetCurValue_def dict_emplace_def dict_find_def)

text \<open>
  C4, as the code has it. \<^verbatim>\<open>Key(name)\<close> on an open dictionary that already holds \<^verbatim>\<open>name\<close> does
  not throw: \<^verbatim>\<open>operator[]\<close> returns the existing entry, the call pushes the pointer to it, and
  the entry, with the value stored before, is the current node. The \<^verbatim>\<open>Value\<close> call that
  follows throws when that value is neither null nor an array.
\<close>

theorem Key_existing_entry_is_reused:
  assumes "GetCurValue b = Inr (Dict d)" and "dict_find name d = Some v"
  shows "\<exists>b'. Key name b = Inr b' \<and> GetCurValue b' = Inr v
     \<and> nodes_stack b' = nodes_stack b @ [last (nodes_stack b) @ [Field name]]
     \<and> (v \<noteq> Null \<and> (\<forall>xs. v \<noteq> Array xs) \<longrightarrow>
          Value w b' = Inl (Logic ''Cannot set value - current object is not empty''))"
proof -
  let ?top = "last (nodes_stack b)"
  let ?b' = "b\<lparr>root := assign ?top (Dict d) (root b),
                nodes_stack := nodes_stack b @ [?top @ [Field name]]\<rparr>"
  from assms(1) have ne: "nodes_stack b \<noteq> []"
    and d: "deref (root b) ?top = Some (Dict d)"
    by (auto simp: GetCurValue_def split: if_splits option.splits)
  have em: "dict_emplace name Null d = d" using assms(2) by (simp add: dict_emplace_def)
  have k: "Key name b = Inr ?b'" using assms(1) by (simp add: Key_def em Let_def)
  have "deref (root ?b') (?top @ [Field name]) = Some v"
    using deref_assign[OF d, of "Dict d"] assms(2) by (simp add: deref_append dict_find_def)
  then have g: "GetCurValue ?b' = Inr v" by (simp add: GetCurValue_def)
  have "Value w ?b' = Inl (Logic ''Cannot set value - current object is not empty'')"
    if "v \<noteq> Null \<and> (\<forall>xs. v \<noteq> Array xs)"
    using that g by (cases v) (simp_all add: Value_def AddObject_def)
  then show ?thesis using k g by (intro exI[of _ ?b']) simp
qed

theorem Key_existing_entry_is_reused_witness:
  "GetCurValue \<lparr>root = Dict [(''a'', Int32 1)], nodes_stack = [[]]\<rparr> = Inr (Dict [(''a'', Int32 1)])
 \<and> dict_find ''a'' [(''a'', Int32 1)] = Some (Int32 1)
 \<and> (\<exists>b'. Key ''a'' \<lparr>root = Dict [(''a'', Int32 1)], nodes_stack = [[]]\<rparr> = Inr b'
        \<and> GetCurValue b' = Inr (Int32 1)
        \<and> Value (Int32 2) b' = Inl (Logic ''Cannot set value - current object is not empty''))"
proof -
  let ?b = "\<lparr>root = Dict [(''a'', Int32 1)], nodes_stack = [[]]\<rparr>"
  have h1: "GetCurValue ?b = Inr (Dict [(''a'', Int32 1)])" by (simp add: GetCurValue_def)
  have h2: "dict_find ''a'' [(''a'', Int32 1)] = Some (Int32 1)" by (simp add: dict_find_def)
  from Key_existing_entry_is_reused [OF h1 h2, of "Int32 2"] h1 h2 show ?thesis by auto
qed

text \<open>The call sequence of the claim: \<^verbatim>\<open>StartDict\<close>, \<^verbatim>\<open>Key("a")\<close>, \<^verbatim>\<open>Value(1)\<close>, \<^verbatim>\<open>Key("a")\<close>.
  The second \<^verbatim>\<open>Key("a")\<close> returns normally.\<close>

theorem Key_twice_does_not_throw:
  "then_call (then_call (then_call (StartDict Builder) (Key ''a'')) (Value (Int32 1))) (Key ''a'')
     = Inr \<lparr>root = Dict [(''a'', Int32 1)], nodes_stack = [[], [Field ''a'']]\<rparr>"
  by (simp add: then_call_def StartDict_def Value_def Key_def Builder_def
       AddObject_def GetCurValue_def dict_emplace_def dict_find_def)

subsection \<open>Strings\<close>

lemma LoadString_loop_tokens:
  "\<forall>t \<in> set ts. valid_token t \<Longrightarrow>
   LoadString_loop s (concat (map render_token ts) @ tail)
     = LoadString_loop (s @ map decode_token ts) tail"
proof (induction ts arbitrary: s)
  case Nil
  then show ?case by simp
next
  case (Cons t ts)
  then show ?case by (cases t) (auto simp: recognized_escape_def)
qed

text \<open>
  C7. After any run of ordinary characters and recognised escapes: the closing quote ends
  the string, and the result holds the ordinary characters unchanged and, for
  \<^verbatim>\<open>\n \t \r \" \\\<close>, the character the escape stands for; a backslash before any other
  character is the error "Unrecognized escape sequence"; a raw line feed or carriage return
  is the error "Unexpected end of line"; the end of the input, also right after a
  backslash, is the error "String parsing error".
\<close>

theorem LoadString_escapes:
  assumes "\<forall>t \<in> set ts. valid_token t"
  shows "LoadString (concat (map render_token ts) @ dquote # rest)
           = Inr (String (map decode_token ts), rest)
    \<and> (\<not> recognized_escape c \<longrightarrow>
         LoadString (concat (map render_token ts) @ bslash # c # rest)
           = Inl (ParsingError (''Unrecognized escape sequence '' @ [bslash, c])))
    \<and> (c' = newline \<or> c' = cret \<longrightarrow>
         LoadString (concat (map render_token ts) @ c' # rest)
           = Inl (ParsingError ''Unexpected end of line''))
    \<and> LoadString (concat (map render_token ts)) = Inl (ParsingError ''String parsing error'')
    \<and> LoadString (concat (map render_token ts) @ [bslash])
           = Inl (ParsingError ''String parsing error'')"
  using LoadString_loop_tokens[OF assms, of "[]"] LoadString_loop_tokens[OF assms, of "[]" "[]"]
  by (auto simp: LoadString_def recognized_escape_def)

theorem LoadString_escapes_witness:
  "LoadString (''a'' @ [bslash] @ ''nb'' @ [bslash, dquote, dquote] @ '', 1'')
       = Inr (String [CHR ''a'', newline, CHR ''b'', dquote], '', 1'')
   \<and> LoadString (''a'' @ [bslash] @ ''nb'' @ [bslash, dquote, bslash] @ ''u, 1'')
       = Inl (ParsingError (''Unrecognized escape sequence '' @ [bslash, CHR ''u'']))
   \<and> LoadString (''a'' @ [bslash] @ ''nb'' @ [bslash, dquote, newline] @ '', 1'')
       = Inl (ParsingError ''Unexpected end of line'')
   \<and> LoadString (''a'' @ [bslash] @ ''nb'' @ [bslash, dquote])
       = Inl (ParsingError ''String parsing error'')"
proof -
  let ?ts = "[Plain CHR ''a'', Escape CHR ''n'', Plain CHR ''b'', Escape dquote]"
  have v: "\<forall>t \<in> set ?ts. valid_token t" by (simp add: recognized_escape_def)
  have u: "\<not> recognized_escape CHR ''u''" by (simp add: recognized_escape_def)
  have n: "newline = newline \<or> newline = cret" by simp
  from LoadString_escapes [OF v, of "'', 1''" "CHR ''u''" newline] u n
  show ?thesis by simp
qed

subsection \<open>Numbers with a leading zero\<close>

lemma isdigit_not_special:
  "isdigit c \<Longrightarrow>
   c \<noteq> CHR ''.'' \<and> c \<noteq> CHR ''e'' \<and> c \<noteq> CHR ''E'' \<and> c \<noteq> CHR ''-'' \<and> c \<noteq> CHR ''+''"
  by (auto simp: isdigit_def)

lemma stoi_zero: "stoi ''0'' = Some 0" "stoi ''-0'' = Some 0"
  by (simp_all add: stoi_def take_sign_def isspace_def isdigit_def)

text \<open>
  C5, as the code has it. Of a literal that begins with \<^verbatim>\<open>0\<close> (after an optional \<^verbatim>\<open>-\<close>) and goes
  on with a digit, \<^verbatim>\<open>LoadNumber\<close> reads the \<^verbatim>\<open>0\<close> alone: the result is the integer \<open>0\<close>, and the
  digits after it stay in the stream. The literal is never one number, and nothing is
  thrown.
\<close>

theorem LoadNumber_leading_zero:
  assumes "isdigit c"
  shows "LoadNumber (CHR ''0'' # c # rest) = Inr (Int32 0, c # rest)
       \<and> LoadNumber (CHR ''-'' # CHR ''0'' # c # rest) = Inr (Int32 0, c # rest)"
  using isdigit_not_special[OF assms]
  by (simp add: LoadNumber_def scan_number_def scan_minus_def scan_int_part_def
       scan_fraction_def scan_exponent_def convert_number_def stoi_zero)

theorem LoadNumber_leading_zero_witness:
  "isdigit CHR ''1'' \<and> LoadNumber ''01'' = Inr (Int32 0, ''1'')
     \<and> LoadNumber ''-01'' = Inr (Int32 0, ''1'')"
proof -
  have d: "isdigit CHR ''1''" by (simp add: isdigit_def)
  from LoadNumber_leading_zero [OF d, of "[]"] d show ?thesis by simp
qed

text \<open>The input \<^verbatim>\<open>01\<close> is not rejected: \<^verbatim>\<open>Load\<close> returns the integer \<open>0\<close> and leaves \<^verbatim>\<open>1\<close> unread.\<close>

theorem Load_leading_zero_not_rejected:
  "Load ''01'' = Some (Inr (Int32 0, ''1''))"
  by code_simp

lemma Load_leading_zero_in_array:
  "Load ''[01]'' = Some (Inr (Array [Int32 0, Int32 1], []))"
  by code_simp


subsection \<open>Duplicate keys\<close>

lemma read_char_ws_skip:
  "\<forall>c \<in> set ws. isspace c \<Longrightarrow> \<not> isspace c \<Longrightarrow> read_char_ws (ws @ c # r) = Some (c, r)"
  by (induction ws) auto

lemma map_of_insort_other:
  "k \<noteq> key \<Longrightarrow> map_of (insort_key fst (key, v) d) k = map_of d k"
  by (induction d) auto

lemma dict_key_fresh: "dict_key d s = Inr (key, r) \<Longrightarrow> dict_find key d = None"
  by (auto simp: dict_key_def split: sum.splits node.splits option.splits if_splits)

lemma dict_emplace_keeps:
  "dict_find key d = None \<Longrightarrow> dict_find k d = Some x \<Longrightarrow> dict_find k (dict_emplace key v d) = Some x"
  by (cases "k = key") (auto simp: dict_emplace_def dict_find_def map_of_insort_other)

lemma LoadDict_loop_keeps_entries:
  "LoadDict_loop n d s = Some (Inr (v, r)) \<Longrightarrow>
   \<exists>d'. v = Dict d' \<and> (\<forall>k x. dict_find k d = Some x \<longrightarrow> dict_find k d' = Some x)"
proof (induction n arbitrary: d s)
  case 0
  then show ?case by (simp add: LoadDict_loop.simps)
next
  case (Suc n)
  note h = Suc.prems
  show ?case
  proof (cases "read_char_ws s")
    case None
    then show ?thesis using h by (simp add: LoadDict_loop_Suc)
  next
    case (Some p)
    obtain c t where p: "p = (c, t)" by (cases p)
    show ?thesis
    proof (cases "c = dquote")
      case False
      show ?thesis
      proof (cases "c = CHR '',''")
        case True
        with h Some p have "LoadDict_loop n d t = Some (Inr (v, r))" by (simp add: LoadDict_loop_Suc[of n])
        from Suc.IH[OF this] show ?thesis .
      next
        case ncomma: False
        then show ?thesis using h Some p False
          by (cases "c = CHR ''}''") (auto simp: LoadDict_loop_Suc)
      qed
    next
      case True
      show ?thesis
      proof (cases "dict_key d t")
        case (Inl e)
        then show ?thesis using h Some p True by (simp add: LoadDict_loop_Suc)
      next
        case (Inr q)
        obtain key r2 where q: "q = (key, r2)" by (cases q)
        from h Some p True Inr q
        have "bind_parse (LoadNode n r2) (\<lambda>v r3. LoadDict_loop n (dict_emplace key v d) r3)
                = Some (Inr (v, r))"
          by (simp add: LoadDict_loop_Suc[of n])
        then obtain v' r' where
          2: "LoadDict_loop n (dict_emplace key v' d) r' = Some (Inr (v, r))"
          by (rule bind_parse_InrE)
        from Suc.IH[OF 2] obtain d' where d': "v = Dict d'"
          "\<forall>k x. dict_find k (dict_emplace key v' d) = Some x \<longrightarrow> dict_find k d' = Some x"
          by blast
        have "dict_find key d = None" using Inr q by (auto dest: dict_key_fresh)
        then show ?thesis using d' by (auto dest: dict_emplace_keeps)
      qed
    qed
  qed
qed

lemma LoadDict_loop_fuel_mono:
  "LoadDict_loop n d s = Some r \<Longrightarrow> n \<le> m \<Longrightarrow> LoadDict_loop m d s = Some r"
proof (induction m)
  case 0
  then show ?case by simp
next
  case (Suc m)
  then show ?case using fuel_mono_aux[of m] by (cases "n = Suc m") auto
qed

lemma LoadDict_loop_skip_space:
  assumes "isspace c"
  shows "LoadDict_loop n d (c # s) = LoadDict_loop n d s"
proof (cases n)
  case 0
  then show ?thesis by (simp add: LoadDict_loop.simps)
next
  case (Suc m)
  show ?thesis unfolding Suc LoadDict_loop_Suc using assms by simp
qed

lemma LoadDict_loop_skip_comma:
  "LoadDict_loop (Suc n) d (CHR '','' # s) = LoadDict_loop n d s"
  by (simp add: LoadDict_loop_Suc comma_not_space)

lemma LoadDict_loop_separators:
  assumes "\<forall>c \<in> set sep. isspace c \<or> c = CHR '',''" and "LoadDict_loop n d x = Some res"
  shows "\<exists>m. LoadDict_loop m d (sep @ x) = Some res"
  using assms(1)
proof (induction sep)
  case Nil
  then show ?case using assms(2) by auto
next
  case (Cons c sep)
  then obtain m where m: "LoadDict_loop m d (sep @ x) = Some res" by auto
  show ?case
  proof (cases "isspace c")
    case True
    then show ?thesis using m by (auto simp: LoadDict_loop_skip_space)
  next
    case False
    with Cons.prems have "c = CHR '',''" by simp
    then have "LoadDict_loop (Suc m) d ((c # sep) @ x) = Some res"
      using m by (simp add: LoadDict_loop_skip_comma)
    then show ?thesis by blast
  qed
qed

lemma dict_key_tokens:
  assumes "\<forall>t \<in> set ts. valid_token t" and "\<forall>c \<in> set ws. isspace c"
  shows "dict_key d (concat (map render_token ts) @ dquote # ws @ CHR '':'' # rest)
     = (if dict_find (map decode_token ts) d \<noteq> None
        then Inl (ParsingError (''Duplicate key '' @ [CHR 0x27] @ map decode_token ts
                @ [CHR 0x27] @ '' have been found''))
        else Inr (map decode_token ts, rest))"
proof -
  have 2: "read_char_ws (ws @ CHR '':'' # rest) = Some (CHR '':'', rest)"
    using assms(2) by (intro read_char_ws_skip) (auto simp: isspace_def)
  have 3: "LoadString (concat (map render_token ts) @ dquote # ws @ CHR '':'' # rest)
    = Inr (String (map decode_token ts), ws @ CHR '':'' # rest)"
    using LoadString_loop_tokens[OF assms(1), of "[]"] by (simp add: LoadString_def)
  show ?thesis by (simp add: dict_key_def 2 3)
qed

lemma LoadDict_loop_entry:
  assumes "\<forall>t \<in> set ts. valid_token t" and "\<forall>c \<in> set ws. isspace c"
    and "dict_find (map decode_token ts) d = None"
    and "LoadNode n vt = Some (Inr (v, s'))"
    and "LoadDict_loop n' (dict_emplace (map decode_token ts) v d) s' = Some res"
  shows "\<exists>m. LoadDict_loop m d
            (dquote # concat (map render_token ts) @ dquote # ws @ CHR '':'' # vt) = Some res"
proof -
  let ?m = "max n n'"
  have 1: "LoadNode ?m vt = Some (Inr (v, s'))"
    using assms(4) by (rule LoadNode_fuel_mono) simp
  have 2: "LoadDict_loop ?m (dict_emplace (map decode_token ts) v d) s' = Some res"
    using assms(5) by (rule LoadDict_loop_fuel_mono) simp
  have q: "\<not> isspace dquote" by (simp add: isspace_def)
  have "LoadDict_loop (Suc ?m) d
            (dquote # concat (map render_token ts) @ dquote # ws @ CHR '':'' # vt) = Some res"
    unfolding LoadDict_loop_Suc
    by (simp add: q dict_key_tokens[OF assms(1,2)] assms(3) 1 2 bind_parse_def)
  then show ?thesis by blast
qed

lemma map_of_insort_same:
  "map_of d k = None \<Longrightarrow> map_of (insort_key fst (k, v) d) k = Some v"
  by (induction d) auto

lemma dict_find_emplace:
  "dict_find key d = None \<Longrightarrow>
   dict_find k (dict_emplace key v d) = (if k = key then Some v else dict_find k d)"
  by (simp add: dict_emplace_def dict_find_def map_of_insort_same map_of_insort_other)

lemma reads_entries_loop:
  assumes "reads_entries s ks r"
  shows "distinct ks \<Longrightarrow> \<forall>k \<in> set ks. dict_find k d = None \<Longrightarrow>
    \<exists>d'. (\<forall>k \<in> set ks. dict_find k d' \<noteq> None)
       \<and> (\<forall>k. dict_find k d \<noteq> None \<longrightarrow> dict_find k d' \<noteq> None)
       \<and> (\<forall>n res. LoadDict_loop n d' r = Some res \<longrightarrow> (\<exists>m. LoadDict_loop m d s = Some res))"
  using assms
proof (induction arbitrary: d rule: reads_entries.induct)
  case (no_entry s)
  show ?case by (intro exI[of _ d]) auto
next
  case (entry sep ts ws n vt v s' ks r)
  let ?k = "map decode_token ts"
  let ?d1 = "dict_emplace ?k v d"
  let ?e = "dquote # concat (map render_token ts) @ dquote # ws @ CHR '':'' # vt"
  from entry.prems have dk: "dict_find ?k d = None" and nk: "?k \<notin> set ks" and dks: "distinct ks"
    by auto
  have fresh: "\<forall>k \<in> set ks. dict_find k ?d1 = None"
    using entry.prems nk by (auto simp: dict_find_emplace[OF dk])
  from entry.IH[OF dks fresh] obtain d' where
    d'1: "\<forall>k \<in> set ks. dict_find k d' \<noteq> None" and
    d'2: "\<forall>k. dict_find k ?d1 \<noteq> None \<longrightarrow> dict_find k d' \<noteq> None" and
    d'3: "\<forall>n res. LoadDict_loop n d' r = Some res \<longrightarrow> (\<exists>m. LoadDict_loop m ?d1 s' = Some res)"
    by blast
  have a: "\<forall>k \<in> set (?k # ks). dict_find k d' \<noteq> None"
    using d'1 d'2 by (simp add: dict_find_emplace[OF dk])
  have b: "\<forall>k. dict_find k d \<noteq> None \<longrightarrow> dict_find k d' \<noteq> None"
    using d'2 by (simp add: dict_find_emplace[OF dk])
  have c: "\<exists>m. LoadDict_loop m d (sep @ ?e) = Some res" if "LoadDict_loop n0 d' r = Some res"
    for n0 res
  proof -
    from d'3 that obtain m1 where "LoadDict_loop m1 ?d1 s' = Some res" by blast
    from LoadDict_loop_entry[OF entry.hyps(2,3) dk entry.hyps(4) this]
    obtain m2 where "LoadDict_loop m2 d ?e = Some res" by blast
    from LoadDict_loop_separators[OF entry.hyps(1) this] show ?thesis .
  qed
  show ?case using a b c by (intro exI[of _ d']) blast
qed

text \<open>
  C6. An object text in which a key comes a second time is rejected. The text after the
  opening brace begins with entries of pairwise different keys \<open>ks\<close>; what follows is one
  more entry whose key is among \<open>ks\<close>, in any spelling with escapes, after any white space
  and commas. Then \<^verbatim>\<open>Load\<close> throws the parsing error "Duplicate key '...' have been found"
  with that key, whatever comes after the colon: no node is returned, and the value read
  first is not replaced.
\<close>

theorem Load_rejects_duplicate_key:
  assumes "reads_entries s ks r" and "distinct ks"
    and "\<forall>c \<in> set sep. isspace c \<or> c = CHR '',''"
    and "\<forall>t \<in> set ts. valid_token t" and "\<forall>c \<in> set ws. isspace c"
    and "map decode_token ts \<in> set ks"
    and "r = sep @ dquote # concat (map render_token ts) @ dquote # ws @ CHR '':'' # rest"
    and "\<forall>c \<in> set ws0. isspace c"
  shows "Load (ws0 @ CHR ''{'' # s)
           = Some (Inl (ParsingError (''Duplicate key '' @ [CHR 0x27] @ map decode_token ts
                @ [CHR 0x27] @ '' have been found'')))"
proof -
  let ?err = "Inl (ParsingError (''Duplicate key '' @ [CHR 0x27] @ map decode_token ts
                @ [CHR 0x27] @ '' have been found'')) :: node parse"
  from reads_entries_loop[OF assms(1,2), of "[]"] obtain d' where
    d'1: "\<forall>k \<in> set ks. dict_find k d' \<noteq> None" and
    d'3: "\<forall>n res. LoadDict_loop n d' r = Some res \<longrightarrow> (\<exists>m. LoadDict_loop m [] s = Some res)"
    by (auto simp: dict_find_def)
  from d'1 assms(6) have dup: "dict_find (map decode_token ts) d' \<noteq> None" by blast
  have q: "\<not> isspace dquote" by (simp add: isspace_def)
  have "LoadDict_loop (Suc 0) d'
          (dquote # concat (map render_token ts) @ dquote # ws @ CHR '':'' # rest) = Some ?err"
    unfolding LoadDict_loop_Suc
    using dup by (simp add: q dict_key_tokens[OF assms(4,5)])
  from LoadDict_loop_separators[OF assms(3) this]
  obtain m1 where "LoadDict_loop m1 d' r = Some ?err" unfolding assms(7) by blast
  with d'3 obtain m where m: "LoadDict_loop m [] s = Some ?err" by blast
  have b: "\<not> isspace CHR ''{''" by (simp add: isspace_def)
  have "read_char_ws (ws0 @ CHR ''{'' # s) = Some (CHR ''{'', s)"
    using assms(8) b by (intro read_char_ws_skip)
  then have "LoadNode (Suc m) (ws0 @ CHR ''{'' # s) = Some ?err"
    using m by (simp add: LoadNode.simps(2))
  then show ?thesis by (rule Load_fuel_independent)
qed

text \<open>The input of the claim, \<^verbatim>\<open>{"a":1,"a":2}\<close>.\<close>

theorem Load_rejects_duplicate_key_witness:
  "Load (''{'' @ [dquote] @ ''a'' @ [dquote] @ '':1,'' @ [dquote] @ ''a'' @ [dquote] @ '':2}'')
     = Some (Inl (ParsingError (''Duplicate key '' @ [CHR 0x27] @ ''a'' @ [CHR 0x27]
          @ '' have been found'')))"
proof -
  let ?r = "'','' @ [dquote] @ ''a'' @ [dquote] @ '':2}''"
  let ?ts = "[Plain CHR ''a'']"
  have v: "\<forall>t \<in> set ?ts. valid_token t" by simp
  have w: "\<forall>c \<in> set ([]::string). isspace c" by simp
  have w': "\<forall>c \<in> set ([]::string). isspace c \<or> c = CHR '',''" by simp
  have c: "\<forall>c \<in> set '',''. isspace c \<or> c = CHR '',''" by simp
  have n: "LoadNode 1 (''1'' @ ?r) = Some (Inr (Int32 1, ?r))" by code_simp
  have e: "reads_entries ([] @ dquote # concat (map render_token ?ts) @ dquote # [] @ CHR '':'' # (''1'' @ ?r))
             (map decode_token ?ts # []) ?r"
    using w' v w n reads_entries.no_entry by (rule reads_entries.entry)
  have d: "distinct (map decode_token ?ts # [])" by simp
  have k: "map decode_token ?ts \<in> set (map decode_token ?ts # [])" by simp
  have r: "?r = '','' @ dquote # concat (map render_token ?ts) @ dquote # [] @ CHR '':'' # ''2}''"
    by simp
  from Load_rejects_duplicate_key [OF e d c v w k r w] show ?thesis by simp
qed


subsection \<open>The type of a number\<close>

lemma read_digits_loop_eq:
  "read_digits_loop p s = (p @ takeWhile isdigit s, dropWhile isdigit s)"
  by (induction p s rule: read_digits_loop.induct) auto

lemma read_digits_Inr:
  assumes "read_digits p s = Inr (p', r)"
  obtains ds where "p' = p @ ds" "s = ds @ r" "ds \<noteq> []" "\<forall>c \<in> set ds. isdigit c"
proof -
  from assms obtain c t where s: "s = c # t" and c: "isdigit c"
    by (cases s) (auto simp: read_digits_def split: if_splits)
  from assms s c have "p' = p @ takeWhile isdigit s" "r = dropWhile isdigit s"
    by (auto simp: read_digits_def read_digits_loop_eq simp del: read_digits_loop.simps)
  then show ?thesis using that[of "takeWhile isdigit s"] s c
    by (auto dest: set_takeWhileD)
qed

lemma scan_int_part_Inr:
  assumes "scan_int_part p s = Inr (p', r)"
  obtains ds where "p' = p @ ds" "s = ds @ r" "ds \<noteq> []" "\<forall>c \<in> set ds. isdigit c"
proof (cases "\<exists>t. s = CHR ''0'' # t")
  case True
  then obtain t where "s = CHR ''0'' # t" by blast
  with assms have "p' = p @ ''0''" "s = ''0'' @ r" by (auto simp: scan_int_part_def)
  then show ?thesis using that[of "''0''"] by (simp add: isdigit_def)
next
  case False
  with assms have "read_digits p s = Inr (p', r)"
    by (auto simp: scan_int_part_def split: list.splits if_splits)
  then show ?thesis using that by (rule read_digits_Inr)
qed

lemma scan_fraction_Inr:
  assumes "scan_fraction p s = Inr (p', b, r)"
  shows "(b \<and> p' = p \<and> r = s) \<or>
         (\<not> b \<and> (\<exists>ds. p' = p @ CHR ''.'' # ds \<and> s = CHR ''.'' # ds @ r))"
proof (cases "\<exists>t. s = CHR ''.'' # t")
  case True
  then obtain t where s: "s = CHR ''.'' # t" by blast
  with assms obtain q where q: "read_digits (p @ ''.'') t = Inr (q, r)" and b: "\<not> b" "p' = q"
    by (auto simp: scan_fraction_def split: sum.splits)
  from q obtain ds where "q = (p @ ''.'') @ ds" "t = ds @ r" by (rule read_digits_Inr)
  with s b show ?thesis by auto
next
  case False
  with assms show ?thesis by (auto simp: scan_fraction_def split: list.splits if_splits)
qed

lemma scan_exponent_Inr:
  assumes "scan_exponent p b0 s = Inr (p', b, r)"
  shows "(b = b0 \<and> p' = p \<and> r = s) \<or>
         (\<not> b \<and> (\<exists>c x. (c = CHR ''e'' \<or> c = CHR ''E'') \<and> p' = p @ c # x \<and> s = c # x @ r))"
proof (cases "\<exists>c t. s = c # t \<and> (c = CHR ''e'' \<or> c = CHR ''E'')")
  case True
  then obtain c t where s: "s = c # t" and c: "c = CHR ''e'' \<or> c = CHR ''E''" by blast
  define sg where "sg = (case t of [] \<Rightarrow> [] | ch' # r' \<Rightarrow>
        if ch' = CHR ''+'' \<or> ch' = CHR ''-'' then [ch'] else [])"
  define t' where "t' = drop (length sg) t"
  have t: "t = sg @ t'" by (auto simp: sg_def t'_def split: list.splits)
  have pr: "(case t of [] \<Rightarrow> (p @ [c], t)
                  | ch' # r' \<Rightarrow> if ch' = CHR ''+'' \<or> ch' = CHR ''-''
                               then (p @ [c, ch'], r') else (p @ [c], t)) = (p @ c # sg, t')"
    by (auto simp: sg_def t'_def split: list.splits)
  from assms s c obtain q where q: "read_digits (p @ c # sg) t' = Inr (q, r)" and b: "\<not> b" "p' = q"
    unfolding scan_exponent_def by (auto simp: pr split: sum.splits)
  from q obtain ds where "q = (p @ c # sg) @ ds" "t' = ds @ r" by (rule read_digits_Inr)
  with s t b c show ?thesis by auto
next
  case False
  with assms show ?thesis by (auto simp: scan_exponent_def split: list.splits if_splits)
qed

lemma integer_shape_no_fraction:
  assumes "sg = [] \<or> sg = ''-''" and "\<forall>c \<in> set ds. isdigit c"
  shows "\<not> has_fraction_or_exponent (sg @ ds)"
proof -
  have "\<forall>c \<in> set ds. c \<noteq> CHR ''.'' \<and> c \<noteq> CHR ''e'' \<and> c \<noteq> CHR ''E''"
    using assms(2) isdigit_not_special by blast
  then show ?thesis using assms(1) unfolding has_fraction_or_exponent_def by fastforce
qed

lemma scan_number_Inr:
  assumes "scan_number s = Inr (lit, b, r)"
  shows "s = lit @ r \<and> (b \<longleftrightarrow> \<not> has_fraction_or_exponent lit)
       \<and> (b \<longrightarrow> (\<exists>sg ds. lit = sg @ ds \<and> (sg = [] \<or> sg = ''-'') \<and> ds \<noteq> []
                    \<and> (\<forall>c \<in> set ds. isdigit c)))"
proof -
  obtain p0 r0 where m: "scan_minus s = (p0, r0)" by (cases "scan_minus s")
  then have s0: "s = p0 @ r0" "p0 = [] \<or> p0 = ''-''"
    by (auto simp: scan_minus_def split: list.splits if_splits)
  from assms m obtain p1 r1 where i: "scan_int_part p0 r0 = Inr (p1, r1)"
    by (cases "scan_int_part p0 r0") (auto simp: scan_number_def)
  then obtain ds where ds: "p1 = p0 @ ds" "r0 = ds @ r1" "ds \<noteq> []" "\<forall>c \<in> set ds. isdigit c"
    by (rule scan_int_part_Inr)
  from assms m i obtain p2 b2 r2 where f: "scan_fraction p1 r1 = Inr (p2, b2, r2)"
    by (cases "scan_fraction p1 r1") (auto simp: scan_number_def)
  from assms m i f have e: "scan_exponent p2 b2 r2 = Inr (lit, b, r)" by (simp add: scan_number_def)
  have nd: "\<not> has_fraction_or_exponent p1"
    unfolding ds(1) using s0(2) ds(4) by (rule integer_shape_no_fraction)
  have s1: "s = p1 @ r1" using s0(1) ds(1,2) by simp
  have shape: "\<exists>sg ds. p1 = sg @ ds \<and> (sg = [] \<or> sg = ''-'') \<and> ds \<noteq> [] \<and> (\<forall>c \<in> set ds. isdigit c)"
    using s0(2) ds by blast
  have F: "s = p2 @ r2 \<and> (b2 \<longleftrightarrow> \<not> has_fraction_or_exponent p2) \<and> (b2 \<longrightarrow> p2 = p1)"
    using scan_fraction_Inr[OF f]
  proof
    assume "b2 \<and> p2 = p1 \<and> r2 = r1"
    then show ?thesis using s1 nd by simp
  next
    assume "\<not> b2 \<and> (\<exists>ds. p2 = p1 @ CHR ''.'' # ds \<and> r1 = CHR ''.'' # ds @ r2)"
    then obtain fs where "\<not> b2" "p2 = p1 @ CHR ''.'' # fs" "r1 = CHR ''.'' # fs @ r2" by blast
    then show ?thesis using s1 by (simp add: has_fraction_or_exponent_def)
  qed
  have E: "s = lit @ r \<and> (b \<longleftrightarrow> \<not> has_fraction_or_exponent lit) \<and> (b \<longrightarrow> lit = p1)"
    using scan_exponent_Inr[OF e]
  proof
    assume "b = b2 \<and> lit = p2 \<and> r = r2"
    then show ?thesis using F by simp
  next
    assume "\<not> b \<and> (\<exists>c x. (c = CHR ''e'' \<or> c = CHR ''E'') \<and> lit = p2 @ c # x \<and> r2 = c # x @ r)"
    then obtain c x where "\<not> b" "c = CHR ''e'' \<or> c = CHR ''E''" "lit = p2 @ c # x" "r2 = c # x @ r"
      by blast
    then show ?thesis using F by (fastforce simp: has_fraction_or_exponent_def)
  qed
  show ?thesis using E shape by blast
qed

lemma stoi_integer_literal:
  assumes "sg = [] \<or> sg = ''-''" and "ds \<noteq> []" and "\<forall>c \<in> set ds. isdigit c"
  shows "stoi (sg @ ds) =
           (if - (2 ^ 31) \<le> literal_value (sg @ ds) \<and> literal_value (sg @ ds) \<le> 2 ^ 31 - 1
            then Some (word_of_int (literal_value (sg @ ds))) else None)"
proof -
  obtain c t where ds: "ds = c # t" using assms(2) by (cases ds) auto
  have c: "isdigit c" using assms(3) ds by simp
  then have cn: "c \<noteq> CHR ''-''" "c \<noteq> CHR ''+''" "\<not> isspace c"
    by (auto simp: isdigit_def isspace_def)
  have tw: "takeWhile isdigit ds = ds" using assms(3) by (simp add: takeWhile_eq_all_conv)
  have sp: "\<not> isspace CHR ''-''" by (simp add: isspace_def)
  have 1: "dropWhile isspace (sg @ ds) = sg @ ds"
  proof (cases "sg = []")
    case True
    then show ?thesis using ds cn by simp
  next
    case False
    with assms(1) have "sg = ''-''" by simp
    then show ?thesis using sp by simp
  qed
  have 2: "take_sign (sg @ ds) = (sg = ''-'', ds)"
  proof (cases "sg = []")
    case True
    then show ?thesis using ds cn by (simp add: take_sign_def)
  next
    case False
    with assms(1) have "sg = ''-''" by simp
    then show ?thesis by (simp add: take_sign_def)
  qed
  have 3: "literal_value (sg @ ds)
             = (if sg = ''-'' then - int (digits_value 0 ds) else int (digits_value 0 ds))"
  proof (cases "sg = []")
    case True
    then show ?thesis using ds cn by (simp add: literal_value_def)
  next
    case False
    with assms(1) have "sg = ''-''" by simp
    then show ?thesis by (simp add: literal_value_def)
  qed
  define lo :: int where "lo = - (2 ^ 31)"
  define hi :: int where "hi = 2 ^ 31 - 1"
  define v :: int where "v = (if sg = ''-'' then - int (digits_value 0 ds) else int (digits_value 0 ds))"
  have "stoi (sg @ ds) = (if v < lo \<or> hi < v then None else Some (word_of_int v))"
    unfolding stoi_def 1 2 lo_def[symmetric] hi_def[symmetric]
    by (simp add: tw assms(2) Let_def v_def)
  also have "\<dots> = (if lo \<le> v \<and> v \<le> hi then Some (word_of_int v) else None)"
    by auto
  finally show ?thesis unfolding 3 v_def[symmetric] lo_def hi_def .
qed

lemmas number_defs = LoadNumber_def scan_number_def scan_minus_def scan_int_part_def read_digits_def
  isdigit_def scan_fraction_def scan_exponent_def convert_number_def stoi_def stod_def take_sign_def
  isspace_def take_exponent_def to_binary64_def scale2_def round_div_even_def bitlen.simps Let_def

text \<open>
  C3, as the code has it. When \<^verbatim>\<open>LoadNumber\<close> returns, the text it has read is a literal
  \<open>lit\<close>, and: if the literal has a fraction or an exponent, the node is a \<^verbatim>\<open>double\<close>, the one
  \<^verbatim>\<open>std::stod\<close> gives for the literal; if it has neither and its value is in the range of
  \<^verbatim>\<open>int\<close>, from \<open>-2^31\<close> to \<open>2^31 - 1\<close>, the node is the \<^verbatim>\<open>int\<close> of that value; if it has neither
  and its value is outside that range, the node is again the \<^verbatim>\<open>double\<close> that \<^verbatim>\<open>std::stod\<close>
  gives, never an \<^verbatim>\<open>int\<close>.
\<close>

theorem LoadNumber_classification:
  assumes "LoadNumber s = Inr (v, rest)"
  shows "\<exists>lit. s = lit @ rest \<and>
     (if has_fraction_or_exponent lit then \<exists>x. v = Double x \<and> stod lit = Some x
      else if - (2 ^ 31) \<le> literal_value lit \<and> literal_value lit \<le> 2 ^ 31 - 1
           then v = Int32 (word_of_int (literal_value lit))
              \<and> sint (word_of_int (literal_value lit) :: 32 word) = literal_value lit
           else \<exists>x. v = Double x \<and> stod lit = Some x)"
proof -
  from assms obtain lit b where sc: "scan_number s = Inr (lit, b, rest)"
    and cv: "convert_number lit b = Inr v"
    by (auto simp: LoadNumber_def split: sum.splits)
  note sn = scan_number_Inr[OF sc]
  show ?thesis
  proof (cases b)
    case False
    with sn have f: "has_fraction_or_exponent lit" by simp
    from cv False have "\<exists>x. v = Double x \<and> stod lit = Some x"
      by (auto simp: convert_number_def split: option.splits)
    with sn f show ?thesis by auto
  next
    case True
    with sn have nf: "\<not> has_fraction_or_exponent lit" by simp
    from sn True obtain sg ds where lit: "lit = sg @ ds" "sg = [] \<or> sg = ''-''" "ds \<noteq> []"
      "\<forall>c \<in> set ds. isdigit c" by blast
    note st = stoi_integer_literal[OF lit(2,3,4), folded lit(1)]
    show ?thesis
    proof (cases "- (2 ^ 31) \<le> literal_value lit \<and> literal_value lit \<le> 2 ^ 31 - 1")
      case inr: True
      have "stoi lit = Some (word_of_int (literal_value lit))" unfolding st using inr by (rule if_P)
      with cv True have v: "v = Int32 (word_of_int (literal_value lit))"
        by (simp add: convert_number_def)
      have "sint (word_of_int (literal_value lit) :: 32 word) = literal_value lit"
        using inr by (simp add: sint_sbintrunc' signed_take_bit_int_eq_self)
      with v nf inr sn show ?thesis by auto
    next
      case out: False
      have "stoi lit = None" unfolding st using out by (rule if_not_P)
      with cv True have "\<exists>x. v = Double x \<and> stod lit = Some x"
        by (auto simp: convert_number_def split: option.splits)
      with nf out sn show ?thesis by auto
    qed
  qed
qed

lemma LoadNumber_3: "LoadNumber ''3'' = Inr (Int32 3, [])"
  by (simp add: number_defs)

lemma LoadNumber_3_0: "LoadNumber ''3.0'' = Inr (Double (Dbl False 6755399441055744 (- 51)), [])"
  by (simp add: number_defs)

lemma LoadNumber_3e2: "LoadNumber ''3e2'' = Inr (Double (Dbl False 5277655813324800 (- 44)), [])"
  by (simp add: number_defs)

lemma LoadNumber_2_63:
  "LoadNumber ''9223372036854775808'' = Inr (Double (Dbl False 4503599627370496 11), [])"
  by (simp add: number_defs)

lemma dvalue_examples:
  "dvalue (Dbl False 6755399441055744 (- 51)) = 3"
  "dvalue (Dbl False 5277655813324800 (- 44)) = 300"
  "dvalue (Dbl False 4503599627370496 11) = 9223372036854775808"
  "dvalue (Dbl False 4503599627370496 (- 21)) = 2147483648"
  by (simp_all add: dvalue_def)

theorem LoadNumber_classification_witness:
  "LoadNumber ''9223372036854775808'' = Inr (Double (Dbl False 4503599627370496 11), [])
   \<and> (\<exists>lit. ''9223372036854775808'' = lit @ [] \<and>
     (if has_fraction_or_exponent lit
      then \<exists>x. Double (Dbl False 4503599627370496 11) = Double x \<and> stod lit = Some x
      else if - (2 ^ 31) \<le> literal_value lit \<and> literal_value lit \<le> 2 ^ 31 - 1
           then Double (Dbl False 4503599627370496 11) = Int32 (word_of_int (literal_value lit))
              \<and> sint (word_of_int (literal_value lit) :: 32 word) = literal_value lit
           else \<exists>x. Double (Dbl False 4503599627370496 11) = Double x \<and> stod lit = Some x))
   \<and> dvalue (Dbl False 4503599627370496 11) = 9223372036854775808"
  using LoadNumber_classification [OF LoadNumber_2_63] LoadNumber_2_63 dvalue_examples(3)
  by blast

text \<open>
  The literal \<^verbatim>\<open>2147483648\<close> is in the signed 64-bit range and has neither fraction nor
  exponent, and \<^verbatim>\<open>LoadNumber\<close> returns a \<^verbatim>\<open>double\<close> for it: \<^verbatim>\<open>std::stoi\<close> converts to \<^verbatim>\<open>int\<close>.
\<close>

theorem LoadNumber_2_31_is_Double:
  "LoadNumber ''2147483648'' = Inr (Double (Dbl False 4503599627370496 (- 21)), [])
   \<and> literal_value ''2147483648'' = 2147483648
   \<and> (2147483648 :: int) \<le> 2 ^ 63 - 1"
  by (simp add: number_defs literal_value_def)


subsection \<open>Printing a double\<close>

lemma digit_char_0: "digit_char 0 = CHR ''0''"
  by (simp add: digit_char_def)

lemma show_nat_times_10: "0 < n \<Longrightarrow> show_nat (10 * n) = show_nat n @ ''0''"
  by (subst show_nat.simps) (simp add: digit_char_0)

lemma show_nat_times_power: "0 < n \<Longrightarrow> show_nat (n * 10 ^ k) = show_nat n @ replicate k CHR ''0''"
proof (induction k)
  case 0
  then show ?case by simp
next
  case (Suc k)
  have "show_nat (n * 10 ^ Suc k) = show_nat (10 * (n * 10 ^ k))" by (simp add: mult.commute mult.left_commute)
  also have "\<dots> = show_nat (n * 10 ^ k) @ ''0''" using Suc.prems by (intro show_nat_times_10) simp
  also have "\<dots> = show_nat n @ replicate (Suc k) CHR ''0''"
    using Suc by (simp add: replicate_append_same)
  finally show ?case .
qed

lemma show_nat_bounds:
  "0 < n \<Longrightarrow> 10 ^ (length (show_nat n) - 1) \<le> n \<and> n < 10 ^ length (show_nat n)"
proof (induction n rule: show_nat.induct)
  case (1 n)
  show ?case
  proof (cases "n < 10")
    case True
    then show ?thesis using "1.prems" by (subst (1 2) show_nat.simps) simp
  next
    case False
    then have pos: "0 < n div 10" by simp
    from "1.IH"[OF False pos] have lo: "10 ^ (length (show_nat (n div 10)) - 1) \<le> n div 10"
      and hi: "n div 10 < 10 ^ length (show_nat (n div 10))" by simp_all
    have len: "length (show_nat n) = Suc (length (show_nat (n div 10)))"
      using False by (subst show_nat.simps) simp
    have l1: "0 < length (show_nat (n div 10))"
      by (subst show_nat.simps) simp
    from lo have "10 * 10 ^ (length (show_nat (n div 10)) - 1) \<le> n" by simp
    then have a: "10 ^ length (show_nat (n div 10)) \<le> n"
      using l1 by (cases "length (show_nat (n div 10))") simp_all
    from hi have b: "n < 10 * 10 ^ length (show_nat (n div 10))" by simp
    show ?thesis using a b by (simp add: len)
  qed
qed

lemma show_nat_length_pos: "0 < length (show_nat n)"
  by (subst show_nat.simps) simp

lemma strip_zeros_replicate: "strip_zeros (replicate k CHR ''0'') = []"
  by (simp add: strip_zeros_def)

lemma decimal_exponent_multiple:
  assumes "0 < N" and "0 < c"
  shows "decimal_exponent (N * c) c = int (length (show_nat N)) - 1"
proof -
  define L where "L = length (show_nat N)"
  define Lc where "Lc = length (show_nat c)"
  define Ln where "Ln = length (show_nat (N * c))"
  have Lpos: "0 < L" "0 < Lc" "0 < Ln"
    unfolding L_def Lc_def Ln_def by (rule show_nat_length_pos)+
  from show_nat_bounds[OF assms(1)] have N: "10 ^ (L - 1) \<le> N" "N < 10 ^ L" by (simp_all add: L_def)
  from show_nat_bounds[OF assms(2)] have c: "10 ^ (Lc - 1) \<le> c" "c < 10 ^ Lc" by (simp_all add: Lc_def)
  have "0 < N * c" using assms by simp
  from show_nat_bounds[OF this] have n: "10 ^ (Ln - 1) \<le> N * c" "N * c < 10 ^ Ln"
    by (simp_all add: Ln_def)
  have "N * c < 10 ^ L * 10 ^ Lc" using N(2) c(2) by (intro mult_strict_mono) simp_all
  then have "(10::nat) ^ (Ln - 1) < 10 ^ (L + Lc)" using n(1) by (simp add: power_add)
  then have up: "Ln - 1 < L + Lc" by (simp add: power_strict_increasing_iff)
  have "(10::nat) ^ (L - 1) * 10 ^ (Lc - 1) \<le> N * c" using N(1) c(1) by (intro mult_mono) simp_all
  then have "(10::nat) ^ ((L - 1) + (Lc - 1)) < 10 ^ Ln" using n(2) by (simp add: power_add)
  then have lo: "(L - 1) + (Lc - 1) < Ln" by (simp add: power_strict_increasing_iff)
  from up lo Lpos consider (a) "Ln = L + Lc" | (b) "Ln + 1 = L + Lc" by linarith
  then show ?thesis
  proof cases
    case a
    then have k: "int Ln - int Lc = int L" by simp
    have "\<not> c * 10 ^ L \<le> N * c" using N(2) assms(2) by (simp add: mult.commute)
    then show ?thesis
      unfolding decimal_exponent_def Let_def Ln_def[symmetric] Lc_def[symmetric] L_def[symmetric] k
      by (simp add: scale10_def)
  next
    case b
    then have k: "int Ln - int Lc = int L - 1" by linarith
    have nk: "nat (int L - 1) = L - 1" by simp
    have "c * 10 ^ (L - 1) \<le> N * c" using N(1) by (simp add: mult.commute)
    then show ?thesis
      unfolding decimal_exponent_def Let_def Ln_def[symmetric] Lc_def[symmetric] L_def[symmetric] k
      using Lpos(1) by (simp add: scale10_def nk)
  qed
qed

lemma round_div_even_exact: "0 < c \<Longrightarrow> round_div_even (q * c) c = q"
  by (simp add: round_div_even_def)

lemma show_double_integral:
  assumes "0 < N" and "N < 10 ^ 6"
    and "(0 \<le> e \<and> m * 2 ^ nat e = N) \<or> (e < 0 \<and> m = N * 2 ^ nat (- e))"
  shows "show_double (Dbl sg m e) = (if sg then ''-'' else []) @ show_nat N"
proof -
  define L where "L = length (show_nat N)"
  define c :: nat where "c = (if 0 \<le> e then 1 else 2 ^ nat (- e))"
  define p where "p = 6 - L"
  have cpos: "0 < c" by (simp add: c_def)
  have Lpos: "0 < L" unfolding L_def by (rule show_nat_length_pos)
  from show_nat_bounds[OF assms(1)] have N: "10 ^ (L - 1) \<le> N" "N < 10 ^ L" by (simp_all add: L_def)
  have "(10::nat) ^ (L - 1) < 10 ^ 6" using N(1) assms(2) by (rule le_less_trans)
  then have "L - 1 < 6" by (rule power_less_imp_less_exp[rotated]) simp
  then have L6: "L \<le> 6" by simp
  have m0: "m \<noteq> 0" using assms(1,3) by auto
  have pair: "(if 0 \<le> e then (m * 2 ^ nat e, 1) else (m, 2 ^ nat (- e))) = (N * c, c)"
    using assms(3) by (auto simp: c_def)
  have X0: "decimal_exponent (N * c) c = int L - 1"
    unfolding L_def using assms(1) cpos by (rule decimal_exponent_multiple)
  have sc: "scale10 (N * c) c (int L - 1 - 5) = ((N * 10 ^ p) * c, c)"
  proof (cases "L = 6")
    case True
    then show ?thesis by (simp add: scale10_def p_def)
  next
    case False
    with L6 have "L < 6" by simp
    then have "nat (- (int L - 1 - 5)) = p" "int L - 1 - 5 < 0" by (simp_all add: p_def)
    then show ?thesis by (simp add: scale10_def mult.commute mult.left_commute)
  qed
  have rd: "round_div_even ((N * 10 ^ p) * c) c = N * 10 ^ p"
    using cpos by (rule round_div_even_exact)
  have "N * 10 ^ p < 10 ^ L * 10 ^ p" using N(2) by simp
  also have "\<dots> = 10 ^ (L + p)" by (simp only: power_add)
  also have "L + p = 6" using L6 by (simp add: p_def)
  finally have "N * 10 ^ p \<noteq> 10 ^ 6" by (rule less_imp_neq)
  then have D: "(N * 10 ^ p = 10 ^ 6) = False" by (rule eq_False[THEN iffD2])
  have ds: "show_nat (N * 10 ^ p) = show_nat N @ replicate p CHR ''0''"
    using assms(1) by (rule show_nat_times_power)
  have X: "(int L - 1 < - 4 \<or> 6 \<le> int L - 1) = False" "(0 \<le> int L - 1) = True"
    "nat (int L - 1) + 1 = L"
    using Lpos L6 by simp_all
  have tk: "take L (show_nat N @ replicate p CHR ''0'') = show_nat N"
    "drop L (show_nat N @ replicate p CHR ''0'') = replicate p CHR ''0''"
    by (simp_all add: L_def)
  have m0': "(m = 0) = False" using m0 by simp
  have "show_double (Dbl sg m e) = (if sg then ''-'' else []) @ (show_nat N @ [])"
    by (simp only: show_double_def double.sel pair Let_def prod.case X0 sc rd D if_False if_True
          X ds tk strip_zeros_replicate m0' refl)
  then show ?thesis by simp
qed

lemma dvalue_integral:
  assumes "dvalue (Dbl sg m e) = of_int k" and "k \<noteq> 0"
  shows "sg = (k < 0) \<and> ((0 \<le> e \<and> m * 2 ^ nat e = nat \<bar>k\<bar>) \<or> (e < 0 \<and> m = nat \<bar>k\<bar> * 2 ^ nat (- e)))"
proof -
  define f :: rat where "f = (if 0 \<le> e then 2 ^ nat e else 1 / 2 ^ nat (- e))"
  have fpos: "0 < f" by (simp add: f_def)
  have dv: "(if sg then - 1 else 1) * of_nat m * f = (of_int k :: rat)"
    using assms(1) unfolding dvalue_def f_def double.sel .
  have mf: "0 \<le> of_nat m * f" using fpos by simp
  have sgk: "sg = (k < 0)"
  proof (cases sg)
    case True
    with dv have "(of_int k :: rat) = - (of_nat m * f)" by simp
    with mf have "(of_int k :: rat) \<le> 0" by simp
    then have "k \<le> 0" by simp
    with assms(2) True show ?thesis by simp
  next
    case False
    with dv have "(of_int k :: rat) = of_nat m * f" by simp
    with mf have "0 \<le> (of_int k :: rat)" by simp
    then have "0 \<le> k" by simp
    with False show ?thesis by simp
  qed
  have abs: "of_nat m * f = (of_nat (nat \<bar>k\<bar>) :: rat)"
  proof (cases sg)
    case True
    with dv have "of_nat m * f = - (of_int k :: rat)" by simp
    also have "\<dots> = of_int \<bar>k\<bar>" using True sgk by simp
    finally show ?thesis by simp
  next
    case False
    with dv have "of_nat m * f = (of_int k :: rat)" by simp
    also have "\<dots> = of_int \<bar>k\<bar>" using False sgk by simp
    finally show ?thesis by simp
  qed
  have "(0 \<le> e \<and> m * 2 ^ nat e = nat \<bar>k\<bar>) \<or> (e < 0 \<and> m = nat \<bar>k\<bar> * 2 ^ nat (- e))"
  proof (cases "0 \<le> e")
    case True
    with abs have "(of_nat (m * 2 ^ nat e) :: rat) = of_nat (nat \<bar>k\<bar>)" by (simp add: f_def)
    then have "m * 2 ^ nat e = nat \<bar>k\<bar>" by (simp only: of_nat_eq_iff)
    with True show ?thesis by simp
  next
    case False
    with abs have "(of_nat m :: rat) / 2 ^ nat (- e) = of_nat (nat \<bar>k\<bar>)" by (simp add: f_def)
    then have "(of_nat m :: rat) = of_nat (nat \<bar>k\<bar>) * 2 ^ nat (- e)" by (simp add: field_simps)
    then have "(of_nat m :: rat) = of_nat (nat \<bar>k\<bar> * 2 ^ nat (- e))" by simp
    then have "m = nat \<bar>k\<bar> * 2 ^ nat (- e)" by (simp only: of_nat_eq_iff)
    with False show ?thesis by simp
  qed
  with sgk show ?thesis by simp
qed

lemmas show_defs = show_double_def decimal_exponent_def scale10_def round_div_even_def
  strip_zeros_def show_nat.simps Let_def digit_char_def

text \<open>
  C2, as the code has it. \<^verbatim>\<open>PrintValue\<close> writes a \<^verbatim>\<open>double\<close> with the same stream insertion
  as an \<^verbatim>\<open>int\<close>, in the default format of the stream, and marks the case in no way. So
  a \<^verbatim>\<open>double\<close> whose value is an integer other than zero and below \<open>10^6\<close> in magnitude is
  written as a bare integer literal: the text is the one \<^verbatim>\<open>Print\<close> gives the \<^verbatim>\<open>int\<close> of
  that value.
\<close>

theorem Print_integral_Double_as_Int:
  assumes "dvalue x = of_int (sint w)" and "sint w \<noteq> 0" and "\<bar>sint w\<bar> < 10 ^ 6"
  shows "PrintNode (Double x) ctx = PrintNode (Int32 w) ctx"
proof -
  obtain sg m e where x: "x = Dbl sg m e" by (cases x)
  define N where "N = nat \<bar>sint w\<bar>"
  from dvalue_integral[OF assms(1)[unfolded x] assms(2)]
  have sg: "sg = (sint w < 0)"
    and rep: "(0 \<le> e \<and> m * 2 ^ nat e = N) \<or> (e < 0 \<and> m = N * 2 ^ nat (- e))"
    by (simp_all add: N_def)
  have Npos: "0 < N" using assms(2) by (simp add: N_def)
  have "int N < 10 ^ 6" using assms(3) by (simp add: N_def)
  then have Nlt: "N < 10 ^ 6" by (simp only: of_nat_less_iff[symmetric, where ?'a = int] of_nat_power of_nat_numeral)
  have "show_double (Dbl sg m e) = (if sg then ''-'' else []) @ show_nat N"
    using Npos Nlt rep by (rule show_double_integral)
  moreover have "show_int w = (if sg then ''-'' else []) @ show_nat N"
    unfolding show_int_def sg N_def by (simp add: abs_if)
  ultimately show ?thesis by (simp add: x)
qed

theorem Print_integral_Double_as_Int_witness:
  "dvalue (Dbl False 6755399441055744 (- 51)) = of_int (sint (3 :: 32 word))
   \<and> sint (3 :: 32 word) \<noteq> 0 \<and> \<bar>sint (3 :: 32 word)\<bar> < 10 ^ 6
   \<and> PrintNode (Double (Dbl False 6755399441055744 (- 51))) \<lparr>indent_step = 4, indent = 0\<rparr>
       = PrintNode (Int32 3) \<lparr>indent_step = 4, indent = 0\<rparr>"
proof -
  have s: "sint (3 :: 32 word) = 3" by simp
  have a: "dvalue (Dbl False 6755399441055744 (- 51)) = of_int (sint (3 :: 32 word))"
    unfolding s by (simp add: dvalue_def)
  have b: "sint (3 :: 32 word) \<noteq> 0" unfolding s by simp
  have c: "\<bar>sint (3 :: 32 word)\<bar> < 10 ^ 6" unfolding s by simp
  from Print_integral_Double_as_Int [OF a b c] a b c show ?thesis by blast
qed

text \<open>The \<^verbatim>\<open>double\<close> \<open>3.0\<close>, that is \<open>6755399441055744 * 2^(-51)\<close>, is printed as \<^verbatim>\<open>3\<close>.\<close>

lemma show_double_three: "show_double (Dbl False 6755399441055744 (- 51)) = ''3''"
proof -
  have "show_double (Dbl False 6755399441055744 (- 51)) = (if False then ''-'' else []) @ show_nat 3"
    by (rule show_double_integral) simp_all
  then show ?thesis by (simp add: show_nat.simps digit_char_def)
qed

theorem Print_Double_3_is_bare_integer:
  "Print (Double (Dbl False 6755399441055744 (- 51))) = ''3''
   \<and> dvalue (Dbl False 6755399441055744 (- 51)) = 3"
  by (simp add: Print_def show_double_three dvalue_def)


subsection \<open>The round trip\<close>

lemma delimited_cases: "delimited s \<Longrightarrow> s = [] \<or> (\<exists>c t. s = c # t \<and> \<not> isalpha c \<and> \<not> isdigit c \<and> c \<noteq> CHR ''.'')"
  by (cases s) (simp_all add: delimited_def)









































end
